theory Spec2Isabelle
  imports Main
begin

section \<open>The multi-worker data loader of \<^verbatim>\<open>src/dataloader.py\<close>\<close>

text \<open>
  The theory embeds the consumer side of \<^verbatim>\<open>_DataLoaderIter\<close> / \<^verbatim>\<open>_MSDataLoaderIter\<close>
  (dispatch, blocking receive, reordering, shutdown) and the body of the worker loop
  \<^verbatim>\<open>_ms_loop\<close>. Mutation of \<^verbatim>\<open>self\<close> is explicit state passing, every \<^verbatim>\<open>raise\<close> is a
  value of type \<open>exn\<close>, and everything the other processes do (which worker finishes
  next, the random scale it drew, a receive that times out, a worker that died) is an
  explicit list of events handed to the consumer.
\<close>

subsection \<open>Exceptions\<close>

text \<open>A Python exception: its class name and its message.\<close>

datatype exn = Exn (exc_type: string) (exc_msg: string)

definition StopIteration :: exn where
  "StopIteration = Exn ''StopIteration'' []"

definition AssertionError :: exn where
  "AssertionError = Exn ''AssertionError'' []"

definition RuntimeError :: "string \<Rightarrow> exn" where
  "RuntimeError msg = Exn ''RuntimeError'' msg"

text \<open>\<^verbatim>\<open>queue.Empty\<close>, what \<^verbatim>\<open>Queue.get(timeout=t)\<close> raises once \<open>t\<close> has elapsed.\<close>

definition QueueEmpty :: exn where
  "QueueEmpty = Exn ''Empty'' []"

definition IndexError :: exn where
  "IndexError = Exn ''IndexError'' ''list index out of range''"

definition ZeroDivisionError :: exn where
  "ZeroDivisionError = Exn ''ZeroDivisionError'' ''integer division or modulo by zero''"

subsection \<open>Formatting\<close>

text \<open>\<^verbatim>\<open>str\<close> of a non-negative integer (a pid, a timeout in whole seconds).\<close>

fun str_nat :: "nat \<Rightarrow> string" where
  "str_nat n =
     (if n < 10 then [char_of (48 + n)]
      else str_nat (n div 10) @ [char_of (48 + n mod 10)])"

text \<open>\<^verbatim>\<open>str\<close> of an integer.\<close>

definition str_int :: "int \<Rightarrow> string" where
  "str_int i = (if i < 0 then ''-'' @ str_nat (nat (- i)) else str_nat (nat i))"

text \<open>\<^verbatim>\<open>sep.join(xs)\<close>.\<close>

fun join :: "string \<Rightarrow> string list \<Rightarrow> string" where
  "join sep [] = []"
| "join sep [x] = x"
| "join sep (x # y # ys) = x @ sep @ join sep (y # ys)"

text \<open>The number that a string of decimal digits denotes.\<close>

definition decimal_value :: "string \<Rightarrow> nat" where
  "decimal_value cs = foldl (\<lambda>a c. 10 * a + (of_char c - 48)) 0 cs"

subsection \<open>Numbers\<close>

text \<open>
  The \<^verbatim>\<open>timeout\<close> of a loader is any Python number: an integer, or a float, which is the
  finite value \<open>m * 2 ^ e\<close> (\<open>PyFloat m e\<close>), an infinity (\<open>PyInf True\<close> the positive one)
  or not a number.
\<close>

datatype pynum = PyInt int | PyFloat int int | PyInf bool | PyNaN

text \<open>The test \<^verbatim>\<open>x > 0\<close>.\<close>

fun py_positive :: "pynum \<Rightarrow> bool" where
  "py_positive (PyInt i) = (0 < i)"
| "py_positive (PyFloat m e) = (0 < m)"
| "py_positive (PyInf pos) = pos"
| "py_positive PyNaN = False"

subsection \<open>Batches, results and the loader\<close>

text \<open>
  A collated batch is a Python list; the worker appends the scale index to it, so an
  element is either a tensor of the collaborator or that integer.
\<close>

datatype 'a elem = Tensor 'a | ScaleIdx nat

text \<open>
  What travels on the output channel beside the sequence number: the samples, or the
  \<^verbatim>\<open>ExceptionWrapper\<close> with its two fields: \<^verbatim>\<open>exc_type\<close>, the class of the exception
  caught in the worker, and \<^verbatim>\<open>exc_msg\<close>, which torch fills with the formatted traceback
  (\<^verbatim>\<open>"".join(traceback.format_exception(*exc_info))\<close>), not with the message of the
  exception.
\<close>

datatype 'a payload = Samples "'a elem list" | ExceptionWrapper string string

text \<open>
  The attributes of the \<^verbatim>\<open>MSDataLoader\<close> that the iterator copies. \<open>collate_fn\<close> stands for
  \<^verbatim>\<open>collate_fn([dataset[i] for i in indices])\<close>: its first argument is \<open>Some k\<close> when
  \<^verbatim>\<open>dataset.set_scale(k)\<close> was called just before and \<open>None\<close> when the data set was left as
  it is; it may raise. \<open>pid_of w\<close> is \<^verbatim>\<open>self.workers[w].pid\<close>.

  Three things belong to Python and torch and are parameters here. \<open>traceback_of k b\<close> is
  the text of the formatted traceback when that call of the collaborator raises.
  \<open>ctor_typeerror c\<close> says what calling the exception class \<open>c\<close> with one string does:
  \<open>None\<close> when it builds an exception of that class holding the string, \<open>Some m\<close> when the
  call itself raises \<^verbatim>\<open>TypeError(m)\<close> because the class takes other arguments (as
  \<^verbatim>\<open>UnicodeDecodeError\<close> does). \<open>float_repr m e\<close> is how Python formats the float
  \<open>m * 2 ^ e\<close>.
\<close>

record ('b, 'a) loader =
  batch_sampler :: "'b list"
  num_workers :: nat
  scale :: "nat list"
  train :: bool
  timeout :: pynum
  pin_memory :: bool
  collate_fn :: "nat option \<Rightarrow> 'b \<Rightarrow> exn + 'a elem list"
  pid_of :: "nat \<Rightarrow> nat"
  traceback_of :: "nat option \<Rightarrow> 'b \<Rightarrow> string"
  ctor_typeerror :: "string \<Rightarrow> string option"
  float_repr :: "int \<Rightarrow> int \<Rightarrow> string"

text \<open>\<^verbatim>\<open>'{}'.format(x)\<close> for a number.\<close>

definition format_num :: "('b, 'a) loader \<Rightarrow> pynum \<Rightarrow> string" where
  "format_num L x =
     (case x of
        PyInt i \<Rightarrow> str_int i
      | PyFloat m e \<Rightarrow> float_repr L m e
      | PyInf pos \<Rightarrow> (if pos then ''inf'' else ''-inf'')
      | PyNaN \<Rightarrow> ''nan'')"

subsection \<open>The worker: \<^verbatim>\<open>_ms_loop\<close>\<close>

text \<open>
  One pass of the loop body for the work item \<open>(idx, batch_indices)\<close>: \<open>fetch_collate\<close> is
  the \<^verbatim>\<open>try\<close> statement, giving what is put on the data queue beside \<open>idx\<close>; \<open>r\<close> is the
  raw value behind \<^verbatim>\<open>random.randrange(0, len(scale))\<close>. \<open>pick_scale\<close> is what the worker
  does to the data set before it fetches: \<open>Some k\<close> for \<^verbatim>\<open>dataset.set_scale(k)\<close>.
\<close>

definition pick_scale :: "('b, 'a) loader \<Rightarrow> nat \<Rightarrow> nat option" where
  "pick_scale L r =
     (if length (scale L) > 1 \<and> train L then Some (r mod length (scale L)) else None)"

definition fetch_collate :: "('b, 'a) loader \<Rightarrow> nat \<Rightarrow> 'b \<Rightarrow> 'a payload" where
  "fetch_collate L r batch_indices =
     (let idx_scale = (case pick_scale L r of None \<Rightarrow> 0 | Some k \<Rightarrow> k)
      in (case collate_fn L (pick_scale L r) batch_indices of
            Inl e \<Rightarrow>
              ExceptionWrapper (exc_type e) (traceback_of L (pick_scale L r) batch_indices)
          | Inr samples \<Rightarrow> Samples (samples @ [ScaleIdx idx_scale])))"

definition ms_work ::
  "('b, 'a) loader \<Rightarrow> nat \<Rightarrow> nat \<times> 'b \<Rightarrow> nat \<times> 'a payload" where
  "ms_work L r item =
     (case item of (idx, batch_indices) \<Rightarrow> (idx, fetch_collate L r batch_indices))"


subsection \<open>The iterator state\<close>

text \<open>What \<^verbatim>\<open>_shutdown_workers\<close> does to channels, threads, processes and the pid registry.\<close>

datatype action =
    SetDoneEvent
  | CancelJoinResultQueue
  | PutResultSentinel
  | JoinPinThread
  | CloseResultQueue
  | PutIndexSentinel nat
  | CloseIndexQueue nat
  | JoinWorker nat
  | RemoveWorkerPids

text \<open>
  The fields of \<^verbatim>\<open>self\<close>. \<open>index_queues\<close> holds, per worker, the work items sent and not yet
  taken to completion; \<open>has_pin_thread\<close> is \<^verbatim>\<open>hasattr(self, 'pin_memory_thread')\<close>; \<open>trace\<close>
  records the shutdown actions in the order they were performed.
\<close>

record ('b, 'a) iter_state =
  sample_iter :: "'b list"
  worker_queue_idx :: nat
  batches_outstanding :: int
  worker_pids_set :: bool
  shutdown :: bool
  send_idx :: nat
  rcvd_idx :: nat
  reorder_dict :: "nat \<rightharpoonup> 'a payload"
  index_queues :: "(nat \<times> 'b) list list"
  has_pin_thread :: bool
  trace :: "action list"

subsection \<open>Dispatch: \<^verbatim>\<open>_put_indices\<close> and \<^verbatim>\<open>__init__\<close>\<close>

definition put_indices ::
  "('b, 'a) loader \<Rightarrow> ('b, 'a) iter_state \<Rightarrow> exn + ('b, 'a) iter_state" where
  "put_indices L s =
     (if \<not> batches_outstanding s < 2 * int (num_workers L) then Inl AssertionError
      else case sample_iter s of
             [] \<Rightarrow> Inr s
           | indices # rest \<Rightarrow>
               if \<not> worker_queue_idx s < length (index_queues s)
               then Inl IndexError
               else if num_workers L = 0
               then Inl ZeroDivisionError
               else
               Inr (s\<lparr>sample_iter := rest,
                      index_queues := (index_queues s)
                        [worker_queue_idx s :=
                           index_queues s ! worker_queue_idx s @ [(send_idx s, indices)]],
                      worker_queue_idx := (worker_queue_idx s + 1) mod num_workers L,
                      batches_outstanding := batches_outstanding s + 1,
                      send_idx := send_idx s + 1\<rparr>))"

text \<open>\<^verbatim>\<open>for _ in range(k): self._put_indices()\<close>\<close>

fun prime ::
  "('b, 'a) loader \<Rightarrow> nat \<Rightarrow> ('b, 'a) iter_state \<Rightarrow> exn + ('b, 'a) iter_state" where
  "prime L 0 s = Inr s"
| "prime L (Suc k) s =
     (case put_indices L s of Inl e \<Rightarrow> Inl e | Inr s' \<Rightarrow> prime L k s')"

text \<open>
  \<^verbatim>\<open>_MSDataLoaderIter.__init__\<close>. Without workers only \<open>sample_iter\<close> is set; the other
  attributes do not exist in Python and are never read by the synchronous path.
\<close>

definition fresh :: "('b, 'a) loader \<Rightarrow> ('b, 'a) iter_state" where
  "fresh L =
     \<lparr>sample_iter = batch_sampler L,
      worker_queue_idx = 0,
      batches_outstanding = 0,
      worker_pids_set = False,
      shutdown = False,
      send_idx = 0,
      rcvd_idx = 0,
      reorder_dict = Map.empty,
      index_queues = replicate (num_workers L) [],
      has_pin_thread = (pin_memory L \<or> py_positive (timeout L)),
      trace = []\<rparr>"

definition iter_init :: "('b, 'a) loader \<Rightarrow> exn + ('b, 'a) iter_state" where
  "iter_init L =
     (if num_workers L > 0
      then prime L (2 * num_workers L) ((fresh L)\<lparr>worker_pids_set := True\<rparr>)
      else Inr ((fresh L)\<lparr>has_pin_thread := False\<rparr>))"

subsection \<open>The environment of the consumer\<close>

text \<open>
  What one call of \<^verbatim>\<open>self.data_queue.get(timeout=...)\<close> meets. \<open>Arrive c r\<close>: a worker
  finishes the oldest work item of its index queue (having drawn \<open>r\<close>) and its result is
  received; \<open>c\<close> selects the worker among those that have work. \<open>Raises e\<close>: the call
  raises \<open>e\<close> (\<open>QueueEmpty\<close> when the timeout elapsed with nothing to receive).
  \<open>dead\<close> lists the workers for which \<^verbatim>\<open>is_alive()\<close> is false at that moment, and
  \<open>pin_alive\<close> is \<^verbatim>\<open>self.pin_memory_thread.is_alive()\<close>.
\<close>

datatype recv = Arrive nat nat | Raises exn

record event =
  recv :: recv
  dead :: "nat list"
  pin_alive :: bool

text \<open>The workers whose index queue is not empty.\<close>

definition busy :: "'x list list \<Rightarrow> nat list" where
  "busy qs = filter (\<lambda>w. qs ! w \<noteq> []) [0..<length qs]"

text \<open>
  A worker takes the head of its index queue (\<^verbatim>\<open>index_queue.get()\<close> in \<^verbatim>\<open>_ms_loop\<close>), runs
  the loop body on it and puts the result on the data queue. \<open>None\<close>: no worker has work,
  nothing can arrive.
\<close>

definition worker_done ::
  "('b, 'a) loader \<Rightarrow> nat \<Rightarrow> nat \<Rightarrow> ('b, 'a) iter_state
     \<Rightarrow> ((nat \<times> 'a payload) \<times> ('b, 'a) iter_state) option" where
  "worker_done L c r s =
     (case busy (index_queues s) of
        [] \<Rightarrow> None
      | w0 # ws \<Rightarrow>
          let w = (w0 # ws) ! (c mod length (w0 # ws));
              q = index_queues s ! w
          in Some (ms_work L r (hd q), s\<lparr>index_queues := (index_queues s)[w := tl q]\<rparr>))"

subsection \<open>Blocking receive: \<^verbatim>\<open>_try_get_batch\<close> and \<^verbatim>\<open>_get_batch\<close>\<close>

text \<open>The pair \<^verbatim>\<open>(True, data)\<close> or \<^verbatim>\<open>(False, None)\<close> that \<^verbatim>\<open>_try_get_batch\<close> returns.\<close>

datatype 'd got = Success 'd | NoData

text \<open>The \<^verbatim>\<open>except Exception as e\<close> branch of \<^verbatim>\<open>_try_get_batch\<close>.\<close>

definition dead_workers :: "('b, 'a) loader \<Rightarrow> event \<Rightarrow> nat list" where
  "dead_workers L ev = filter (\<lambda>w. w \<in> set (dead ev)) [0..<num_workers L]"

definition worker_exit_msg :: "('b, 'a) loader \<Rightarrow> nat list \<Rightarrow> string" where
  "worker_exit_msg L ws =
     ''DataLoader worker (pid(s) '' @ join '', '' (map (\<lambda>w. str_nat (pid_of L w)) ws)
       @ '') exited unexpectedly''"

definition on_get_exception ::
  "('b, 'a) loader \<Rightarrow> event \<Rightarrow> exn \<Rightarrow> exn + (nat \<times> 'a payload) got" where
  "on_get_exception L ev e =
     (if dead_workers L ev \<noteq> [] then Inl (RuntimeError (worker_exit_msg L (dead_workers L ev)))
      else if exc_type e = ''Empty'' then Inr NoData
      else Inl e)"

definition try_get_batch ::
  "('b, 'a) loader \<Rightarrow> ('b, 'a) iter_state \<Rightarrow> event
     \<Rightarrow> (exn + (nat \<times> 'a payload) got) \<times> ('b, 'a) iter_state" where
  "try_get_batch L s ev =
     (case recv ev of
        Arrive c r \<Rightarrow>
          (case worker_done L c r s of
             Some (data, s') \<Rightarrow> (Inr (Success data), s')
           | None \<Rightarrow> (on_get_exception L ev QueueEmpty, s))
      | Raises e \<Rightarrow> (on_get_exception L ev e, s))"

definition timeout_msg :: "('b, 'a) loader \<Rightarrow> string" where
  "timeout_msg L =
     ''DataLoader timed out after '' @ format_num L (timeout L) @ '' seconds''"

text \<open>
  \<^verbatim>\<open>_get_batch\<close>. Each attempt consumes one event; when the events are used up the call is
  still blocked, which is the result \<open>None\<close>.
\<close>

fun get_batch ::
  "('b, 'a) loader \<Rightarrow> ('b, 'a) iter_state \<Rightarrow> event list
     \<Rightarrow> (exn + (nat \<times> 'a payload)) option \<times> ('b, 'a) iter_state \<times> event list" where
  "get_batch L s [] = (None, s, [])"
| "get_batch L s (ev # evs) =
     (if py_positive (timeout L) then
        (case try_get_batch L s ev of
           (Inl e, s') \<Rightarrow> (Some (Inl e), s', evs)
         | (Inr (Success data), s') \<Rightarrow> (Some (Inr data), s', evs)
         | (Inr NoData, s') \<Rightarrow> (Some (Inl (RuntimeError (timeout_msg L))), s', evs))
      else if pin_memory L then
        (if pin_alive ev then
           (case try_get_batch L s ev of
              (Inl e, s') \<Rightarrow> (Some (Inl e), s', evs)
            | (Inr (Success data), s') \<Rightarrow> (Some (Inr data), s', evs)
            | (Inr NoData, s') \<Rightarrow> get_batch L s' evs)
         else (Some (Inl (RuntimeError ''Pin memory thread exited unexpectedly'')), s, evs))
      else
        (case try_get_batch L s ev of
           (Inl e, s') \<Rightarrow> (Some (Inl e), s', evs)
         | (Inr (Success data), s') \<Rightarrow> (Some (Inr data), s', evs)
         | (Inr NoData, s') \<Rightarrow> get_batch L s' evs))"

lemma get_batch_shorter:
  "get_batch L s evs = (Some r, s', evs') \<Longrightarrow> length evs' < length evs"
proof (induction evs arbitrary: s)
  case Nil
  then show ?case by simp
next
  case (Cons ev evs)
  then show ?case
    by (fastforce split: if_splits prod.splits sum.splits got.splits)
qed

subsection \<open>Shutdown: \<^verbatim>\<open>_shutdown_workers\<close>\<close>

text \<open>
  \<open>python_exit_status\<close> is \<^verbatim>\<open>_utils.python_exit_status\<close>: \<open>Some True\<close>, \<open>None\<close> or, while
  the interpreter runs normally, \<open>Some False\<close>.
\<close>

definition shutdown_body :: "('b, 'a) iter_state \<Rightarrow> action list" where
  "shutdown_body s =
     [SetDoneEvent]
     @ (if has_pin_thread s
        then [CancelJoinResultQueue, PutResultSentinel, JoinPinThread, CloseResultQueue]
        else [])
     @ concat (map (\<lambda>q. [PutIndexSentinel q, CloseIndexQueue q])
                   [0..<length (index_queues s)])
     @ map JoinWorker [0..<length (index_queues s)]"

definition shutdown_workers ::
  "bool option \<Rightarrow> ('b, 'a) iter_state \<Rightarrow> ('b, 'a) iter_state" where
  "shutdown_workers python_exit_status s =
     (if python_exit_status = Some True \<or> python_exit_status = None then s
      else if \<not> shutdown s then
        (let s1 = s\<lparr>shutdown := True\<rparr>;
             s2 = s1\<lparr>trace := trace s1 @ shutdown_body s1\<rparr>
         in if worker_pids_set s2
            then s2\<lparr>trace := trace s2 @ [RemoveWorkerPids], worker_pids_set := False\<rparr>
            else s2)
      else s)"

subsection \<open>The consumer: \<^verbatim>\<open>_process_next_batch\<close> and \<^verbatim>\<open>__next__\<close>\<close>

text \<open>
  What \<^verbatim>\<open>raise cls(msg)\<close> raises for the class named \<open>ty\<close>: the exception built from the
  string, or the \<^verbatim>\<open>TypeError\<close> of a constructor that does not take one string.
\<close>

definition raise_class :: "('b, 'a) loader \<Rightarrow> string \<Rightarrow> string \<Rightarrow> exn" where
  "raise_class L ty msg =
     (case ctor_typeerror L ty of None \<Rightarrow> Exn ty msg | Some m \<Rightarrow> Exn ''TypeError'' m)"

definition process_next_batch ::
  "('b, 'a) loader \<Rightarrow> ('b, 'a) iter_state \<Rightarrow> 'a payload
     \<Rightarrow> (exn + 'a elem list) \<times> ('b, 'a) iter_state" where
  "process_next_batch L s batch =
     (let s1 = s\<lparr>rcvd_idx := rcvd_idx s + 1\<rparr>
      in case put_indices L s1 of
           Inl e \<Rightarrow> (Inl e, s1)
         | Inr s2 \<Rightarrow>
             (case batch of
                ExceptionWrapper ty msg \<Rightarrow>
                  if ty = ''KeyError'' \<and> CHR 0x0A \<in> set msg
                  then (Inl (Exn ''Exception'' (''KeyError:'' @ msg)), s2)
                  else (Inl (raise_class L ty msg), s2)
              | Samples b \<Rightarrow> (Inr b, s2)))"

text \<open>
  The \<^verbatim>\<open>while True\<close> loop of \<^verbatim>\<open>__next__\<close>. It ends: every pass that does not return
  or raise has received a result, which uses up at least one event.
\<close>

function next_loop ::
  "('b, 'a) loader \<Rightarrow> ('b, 'a) iter_state \<Rightarrow> event list
     \<Rightarrow> (exn + 'a elem list) option \<times> ('b, 'a) iter_state \<times> event list" where
  "next_loop L s evs =
     (if \<not> (\<not> shutdown s \<and> batches_outstanding s > 0) then (Some (Inl AssertionError), s, evs)
      else case get_batch L s evs of
             (None, s', evs') \<Rightarrow> (None, s', evs')
           | (Some (Inl e), s', evs') \<Rightarrow> (Some (Inl e), s', evs')
           | (Some (Inr (idx, batch)), s', evs') \<Rightarrow>
               (let s1 = s'\<lparr>batches_outstanding := batches_outstanding s' - 1\<rparr>
                in if idx \<noteq> rcvd_idx s1
                   then next_loop L (s1\<lparr>reorder_dict := (reorder_dict s1)(idx \<mapsto> batch)\<rparr>) evs'
                   else (case process_next_batch L s1 batch of
                           (res, s2) \<Rightarrow> (Some res, s2, evs'))))"
  by pat_completeness auto
termination
  by (relation "measure (\<lambda>(L, s, evs). length evs)") (auto dest: get_batch_shorter [OF sym])

declare next_loop.simps [simp del]

text \<open>
  \<^verbatim>\<open>__next__\<close>. Without workers the batch is collated in the caller; pinning it
  (\<^verbatim>\<open>pin_memory_batch\<close>) does not change its content. \<open>pes\<close> is the interpreter's exit
  status seen by \<^verbatim>\<open>_shutdown_workers\<close>.
\<close>

definition "next" ::
  "bool option \<Rightarrow> ('b, 'a) loader \<Rightarrow> ('b, 'a) iter_state \<Rightarrow> event list
     \<Rightarrow> (exn + 'a elem list) option \<times> ('b, 'a) iter_state \<times> event list" where
  "next pes L s evs =
     (if num_workers L = 0 then
        (case sample_iter s of
           [] \<Rightarrow> (Some (Inl StopIteration), s, evs)
         | indices # rest \<Rightarrow>
             (case collate_fn L None indices of
                Inl e \<Rightarrow> (Some (Inl e), s\<lparr>sample_iter := rest\<rparr>, evs)
              | Inr batch \<Rightarrow> (Some (Inr batch), s\<lparr>sample_iter := rest\<rparr>, evs)))
      else case reorder_dict s (rcvd_idx s) of
             Some batch \<Rightarrow>
               (case process_next_batch L
                       (s\<lparr>reorder_dict := (reorder_dict s)(rcvd_idx s := None)\<rparr>) batch of
                  (res, s') \<Rightarrow> (Some res, s', evs))
           | None \<Rightarrow>
               if batches_outstanding s = 0
               then (Some (Inl StopIteration), shutdown_workers pes s, evs)
               else next_loop L s evs)"

text \<open>
  \<open>k\<close> successive calls of \<^verbatim>\<open>next()\<close> by a consumer that goes on after an exception; the
  outcomes are listed in call order, and the list ends early at a call that never returns.
\<close>

fun calls ::
  "bool option \<Rightarrow> ('b, 'a) loader \<Rightarrow> nat \<Rightarrow> ('b, 'a) iter_state \<Rightarrow> event list
     \<Rightarrow> (exn + 'a elem list) list \<times> ('b, 'a) iter_state \<times> event list" where
  "calls pes L 0 s evs = ([], s, evs)"
| "calls pes L (Suc k) s evs =
     (case next pes L s evs of
        (None, s', evs') \<Rightarrow> ([], s', evs')
      | (Some res, s', evs') \<Rightarrow>
          (case calls pes L k s' evs' of
             (outs, s'', evs'') \<Rightarrow> (res # outs, s'', evs'')))"

subsection \<open>A concrete loader\<close>

text \<open>
  Two workers, five index batches, a collaborator that returns \<open>index * 10\<close>; \<open>demo_state\<close>
  is the iterator right after \<^verbatim>\<open>__init__\<close>, with the window of four primed.
\<close>

definition demo_loader :: "(nat, nat) loader" where
  "demo_loader =
     \<lparr>batch_sampler = [0, 1, 2, 3, 4], num_workers = 2, scale = [2], train = True,
      timeout = PyInt 0, pin_memory = False,
      collate_fn = (\<lambda>k i. Inr [Tensor (i * 10)]), pid_of = (\<lambda>w. 100 + w),
      traceback_of = (\<lambda>k i. []), ctor_typeerror = (\<lambda>c. None),
      float_repr = (\<lambda>m e. [])\<rparr>"

definition demo_state :: "(nat, nat) iter_state" where
  "demo_state =
     \<lparr>sample_iter = [4], worker_queue_idx = 0, batches_outstanding = 4,
      worker_pids_set = True, shutdown = False, send_idx = 4, rcvd_idx = 0,
      reorder_dict = Map.empty, index_queues = [[(0, 0), (2, 2)], [(1, 1), (3, 3)]],
      has_pin_thread = False, trace = []\<rparr>"

text \<open>An arrival while every worker and the pin-memory thread are alive.\<close>

definition arrival :: "nat \<Rightarrow> nat \<Rightarrow> event" where
  "arrival c r = \<lparr>recv = Arrive c r, dead = [], pin_alive = True\<rparr>"

text \<open>
  Receives with no result: one that times out while all are alive, one that times out
  after worker 1 died, one after both workers died, and one that fails with another
  exception.
\<close>

definition poll_empty :: event where
  "poll_empty = \<lparr>recv = Raises QueueEmpty, dead = [], pin_alive = True\<rparr>"

definition poll_dead :: event where
  "poll_dead = \<lparr>recv = Raises QueueEmpty, dead = [1], pin_alive = True\<rparr>"


definition poll_oserror :: event where
  "poll_oserror = \<lparr>recv = Raises (Exn ''OSError'' ''boom''), dead = [], pin_alive = True\<rparr>"

text \<open>
  The loader with a timeout of 5 seconds, and of 2.5 seconds (the float \<open>5 * 2 ^ -1\<close>, which
  Python formats as \<^verbatim>\<open>2.5\<close>); with a timeout the iterator has a pin-memory thread.
\<close>

definition timeout_loader :: "(nat, nat) loader" where
  "timeout_loader = demo_loader\<lparr>timeout := PyInt 5\<rparr>"

definition float_timeout_loader :: "(nat, nat) loader" where
  "float_timeout_loader =
     demo_loader\<lparr>timeout := PyFloat 5 (- 1),
                 float_repr := (\<lambda>m e. if m = 5 \<and> e = - 1 then ''2.5'' else [])\<rparr>"

definition timeout_state :: "(nat, nat) iter_state" where
  "timeout_state = demo_state\<lparr>has_pin_thread := True\<rparr>"

text \<open>Seven index batches instead of five, and the iterator right after \<^verbatim>\<open>__init__\<close>.\<close>

definition long_loader :: "(nat, nat) loader" where
  "long_loader = demo_loader\<lparr>batch_sampler := [0, 1, 2, 3, 4, 5, 6]\<rparr>"

definition long_state :: "(nat, nat) iter_state" where
  "long_state = demo_state\<lparr>sample_iter := [4, 5, 6]\<rparr>"

text \<open>Several calls of \<^verbatim>\<open>_shutdown_workers\<close> in a row.\<close>

definition shutdown_calls ::
  "bool option list \<Rightarrow> ('b, 'a) iter_state \<Rightarrow> ('b, 'a) iter_state" where
  "shutdown_calls pess s = fold shutdown_workers pess s"

subsection \<open>Notions used in the statements about whole runs\<close>

text \<open>The work items sent to the workers and not yet completed.\<close>

definition pending :: "('b, 'a) iter_state \<Rightarrow> (nat \<times> 'b) list" where
  "pending s = concat (index_queues s)"

text \<open>An event at which a result arrives (and the pin-memory thread is alive).\<close>

definition is_arrival :: "event \<Rightarrow> bool" where
  "is_arrival ev = (case recv ev of Arrive c r \<Rightarrow> pin_alive ev | Raises e \<Rightarrow> False)"

text \<open>
  What \<^verbatim>\<open>_process_next_batch\<close> hands to the caller for a payload: the samples, or the
  exception it raises for an \<^verbatim>\<open>ExceptionWrapper\<close>.
\<close>

definition deliver :: "('b, 'a) loader \<Rightarrow> 'a payload \<Rightarrow> exn + 'a elem list" where
  "deliver L p =
     (case p of
        Samples b \<Rightarrow> Inr b
      | ExceptionWrapper ty msg \<Rightarrow>
          if ty = ''KeyError'' \<and> CHR 0x0A \<in> set msg
          then Inl (Exn ''Exception'' (''KeyError:'' @ msg))
          else Inl (raise_class L ty msg))"

text \<open>
  The window invariant. The sequence numbers from \<open>lo\<close> up to \<open>send_idx\<close> are exactly those
  pending at a worker or held in \<open>reorder_dict\<close>, each once; \<open>send_idx\<close> has reached \<open>t\<close>
  unless the batch sampler ran out first. Between two calls of \<^verbatim>\<open>next()\<close>,
  \<open>lo = rcvd_idx\<close> and \<open>t = rcvd_idx + 2 * num_workers\<close>.
\<close>

definition winv :: "('b, 'a) loader \<Rightarrow> ('b, 'a) iter_state \<Rightarrow> nat \<Rightarrow> nat \<Rightarrow> bool" where
  "winv L s lo t \<longleftrightarrow>
     sample_iter s = drop (send_idx s) (batch_sampler L) \<and>
     send_idx s = min (length (batch_sampler L)) t \<and>
     lo \<le> send_idx s \<and>
     length (index_queues s) = num_workers L \<and>
     worker_queue_idx s < num_workers L \<and>
     batches_outstanding s = int (length (pending s)) \<and>
     distinct (map fst (pending s)) \<and>
     fst ` set (pending s) \<union> dom (reorder_dict s) = {lo..<send_idx s} \<and>
     fst ` set (pending s) \<inter> dom (reorder_dict s) = {} \<and>
     (\<forall>x \<in> set (pending s). snd x = batch_sampler L ! fst x) \<and>
     (\<forall>i p. reorder_dict s i = Some p \<longrightarrow>
        (\<exists>r. p = fetch_collate L r (batch_sampler L ! i))) \<and>
     (shutdown s \<longrightarrow> lo = send_idx s \<and> sample_iter s = [])"

definition iter_inv :: "('b, 'a) loader \<Rightarrow> ('b, 'a) iter_state \<Rightarrow> bool" where
  "iter_inv L s \<longleftrightarrow>
     winv L s (rcvd_idx s) (rcvd_idx s + 2 * num_workers L) \<and>
     (sample_iter s \<noteq> [] \<longrightarrow> pending s \<noteq> [])"

text \<open>What a call of \<^verbatim>\<open>_get_batch\<close> can have done.\<close>

definition got_batch ::
  "('b, 'a) loader \<Rightarrow> ('b, 'a) iter_state \<Rightarrow> event list
     \<Rightarrow> (exn + (nat \<times> 'a payload)) option \<Rightarrow> ('b, 'a) iter_state \<Rightarrow> event list \<Rightarrow> bool" where
  "got_batch L s evs r s' evs' \<longleftrightarrow>
     (\<exists>pre. evs = pre @ evs') \<and>
     ((r = None \<and> s' = s \<and> evs' = []) \<or>
      (\<exists>e. r = Some (Inl e) \<and> s' = s \<and>
           ((\<exists>m. e = RuntimeError m) \<or> (\<exists>ev \<in> set evs. recv ev = Raises e))) \<or>
      (\<exists>c rr d. r = Some (Inr d) \<and> worker_done L c rr s = Some (d, s')))"

text \<open>
  Inside the loop of \<^verbatim>\<open>__next__\<close>: the batch waited for is not in \<open>reorder_dict\<close>, so
  it is still with a worker.
\<close>

definition linv :: "('b, 'a) loader \<Rightarrow> ('b, 'a) iter_state \<Rightarrow> bool" where
  "linv L s \<longleftrightarrow>
     winv L s (rcvd_idx s) (rcvd_idx s + 2 * num_workers L) \<and>
     reorder_dict s (rcvd_idx s) = None \<and> pending s \<noteq> []"

text \<open>The batches that have not been received yet: not sent, or with a worker.\<close>

definition todo :: "('b, 'a) loader \<Rightarrow> ('b, 'a) iter_state \<Rightarrow> nat" where
  "todo L s = length (batch_sampler L) - send_idx s + length (pending s)"

text \<open>
  What one call of \<^verbatim>\<open>next()\<close> can have done from a state \<open>s\<close>: it is blocked with the
  events used up; or it delivered batch \<open>rcvd_idx s\<close> (returned it, or raised its
  exception); or it raised something else and delivered nothing.
\<close>

definition stepped ::
  "('b, 'a) loader \<Rightarrow> ('b, 'a) iter_state \<Rightarrow> event list
     \<Rightarrow> (exn + 'a elem list) option \<Rightarrow> ('b, 'a) iter_state \<Rightarrow> event list \<Rightarrow> bool" where
  "stepped L s evs r s' evs' \<longleftrightarrow>
     iter_inv L s' \<and> (\<exists>pre. evs = pre @ evs') \<and>
     ((r = None \<and> rcvd_idx s' = rcvd_idx s \<and> evs' = []) \<or>
      (\<exists>rr. r = Some (deliver L (fetch_collate L rr (batch_sampler L ! rcvd_idx s))) \<and>
            rcvd_idx s < length (batch_sampler L) \<and> rcvd_idx s' = Suc (rcvd_idx s)) \<or>
      (\<exists>e. r = Some (Inl e) \<and> rcvd_idx s' = rcvd_idx s \<and>
           (e = StopIteration \<or> (\<exists>m. e = RuntimeError m) \<or>
            (\<exists>ev \<in> set evs. recv ev = Raises e))))"

text \<open>
  Where an outcome of \<^verbatim>\<open>next()\<close> can come from: a delivered payload, the end of the
  iteration, a \<^verbatim>\<open>RuntimeError\<close> of the blocking receive, or an exception that the receive
  itself raised.
\<close>

definition allowed :: "('b, 'a) loader \<Rightarrow> event list \<Rightarrow> exn + 'a elem list \<Rightarrow> bool" where
  "allowed L evs out \<longleftrightarrow>
     (\<exists>rr b. out = deliver L (fetch_collate L rr b)) \<or>
     out = Inl StopIteration \<or>
     (\<exists>m. out = Inl (RuntimeError m)) \<or>
     (\<exists>e. out = Inl e \<and> (\<exists>ev \<in> set evs. recv ev = Raises e))"

text \<open>
  The collaborator fails on index batch 1 only, with a \<^verbatim>\<open>ValueError\<close> in
  \<open>failing_loader\<close> and a \<^verbatim>\<open>KeyError\<close> in \<open>keyerror_loader\<close>; the traceback text ends,
  as Python's does, with the line of the exception.
\<close>

definition failing_loader :: "(nat, nat) loader" where
  "failing_loader =
     demo_loader\<lparr>collate_fn :=
       (\<lambda>k i. if i = 1 then Inl (Exn ''ValueError'' ''bad sample'') else Inr [Tensor (i * 10)]),
      traceback_of :=
       (\<lambda>k i. ''Traceback (most recent call last):'' @ [CHR 0x0A]
                @ ''ValueError: bad sample'' @ [CHR 0x0A])\<rparr>"



text \<open>The same loader without workers, and its iterator after \<^verbatim>\<open>__init__\<close>.\<close>

definition sync_loader :: "(nat, nat) loader" where
  "sync_loader = demo_loader\<lparr>num_workers := 0\<rparr>"

definition sync_state :: "(nat, nat) iter_state" where
  "sync_state = (fresh sync_loader)\<lparr>has_pin_thread := False\<rparr>"

section \<open>Properties\<close>

lemma demo_init: "iter_init demo_loader = Inr demo_state"
  by (simp add: iter_init_def demo_loader_def demo_state_def fresh_def put_indices_def
      numeral_eq_Suc)

subsection \<open>Shutdown\<close>

lemma shutdown_workers_noop: "shutdown s \<Longrightarrow> shutdown_workers pes s = s"
  by (simp add: shutdown_workers_def)

lemma shutdown_calls_noop: "shutdown s \<Longrightarrow> fold shutdown_workers pess s = s"
  by (induction pess) (simp_all add: shutdown_workers_noop)

lemma shutdown_workers_cases:
  "shutdown_workers pes s = s \<or>
   (\<not> shutdown s \<and> shutdown (shutdown_workers pes s) \<and>
    trace (shutdown_workers pes s) =
      trace s @ shutdown_body s @ (if worker_pids_set s then [RemoveWorkerPids] else []))"
  by (simp add: shutdown_workers_def Let_def shutdown_body_def)

lemma count_list_index_actions:
  "count_list (concat (map (\<lambda>q. [PutIndexSentinel q, CloseIndexQueue q]) ws)) SetDoneEvent = 0"
  "count_list (concat (map (\<lambda>q. [PutIndexSentinel q, CloseIndexQueue q]) ws)) RemoveWorkerPids = 0"
  "count_list (map JoinWorker ws) SetDoneEvent = 0"
  "count_list (map JoinWorker ws) RemoveWorkerPids = 0"
  by (induction ws) simp_all

lemma count_list_shutdown_body:
  "count_list (shutdown_body s) SetDoneEvent = 1"
  "count_list (shutdown_body s) RemoveWorkerPids = 0"
  by (simp_all add: shutdown_body_def count_list_index_actions)

lemma shutdown_calls_count:
  "count_list (trace (fold shutdown_workers pess s)) SetDoneEvent
     \<le> count_list (trace s) SetDoneEvent + 1 \<and>
   count_list (trace (fold shutdown_workers pess s)) RemoveWorkerPids
     \<le> count_list (trace s) RemoveWorkerPids + 1"
proof (induction pess arbitrary: s)
  case Nil
  then show ?case by simp
next
  case (Cons pes pess)
  consider (same) "shutdown_workers pes s = s"
    | (ran) "shutdown (shutdown_workers pes s)"
        "trace (shutdown_workers pes s) =
           trace s @ shutdown_body s @ (if worker_pids_set s then [RemoveWorkerPids] else [])"
    using shutdown_workers_cases [of pes s] by blast
  then show ?case
  proof cases
    case same
    then show ?thesis using Cons.IH [of s] by simp
  next
    case ran
    then show ?thesis
      by (simp add: shutdown_calls_noop count_list_shutdown_body)
  qed
qed

text \<open>
  C3, as the code has it. A call of \<^verbatim>\<open>_shutdown_workers\<close> that follows a completed one
  changes nothing: no action is added to the trace and no field is touched. Over any
  sequence of calls on one iterator, whatever the interpreter's exit status at each, the
  guarded body runs at most once (the stop signal is set at most once more than before)
  and the worker pids are removed from the registry at most once. The model has no
  failing action, so no call raises.
\<close>

theorem shutdown_idempotent:
  "shutdown_workers pes' (shutdown_workers (Some False) s) = shutdown_workers (Some False) s
   \<and> count_list (trace (shutdown_calls pess s)) SetDoneEvent
        \<le> count_list (trace s) SetDoneEvent + 1
   \<and> count_list (trace (shutdown_calls pess s)) RemoveWorkerPids
        \<le> count_list (trace s) RemoveWorkerPids + 1"
  using shutdown_calls_count [of pess s]
  by (simp add: shutdown_calls_def shutdown_workers_def Let_def)

text \<open>
  C3 as stated fails for the call made before any iteration: on the iterator that
  \<^verbatim>\<open>__init__\<close> has just built, the first call runs the whole body.
\<close>

theorem shutdown_before_iteration_acts:
  "iter_init demo_loader = Inr demo_state \<and>
   trace (shutdown_workers (Some False) demo_state) =
     [SetDoneEvent, PutIndexSentinel 0, CloseIndexQueue 0, PutIndexSentinel 1,
      CloseIndexQueue 1, JoinWorker 0, JoinWorker 1, RemoveWorkerPids] \<and>
   trace (shutdown_workers (Some False) demo_state) \<noteq> trace demo_state"
proof -
  have "[0..<length (index_queues demo_state)] = [0, 1]"
    by (simp add: demo_state_def upt_rec)
  then show ?thesis
    by (simp add: demo_init shutdown_workers_def Let_def shutdown_body_def)
       (simp add: demo_state_def)
qed

text \<open>
  C8. When the body runs (the flag is not yet set, the interpreter is not exiting) on an
  iterator whose pids are registered, the actions are, in this order: set the stop
  signal; with a pin-memory thread, put the sentinel on the result queue, join the thread
  and only then close the result queue; per worker, put the sentinel on its index queue
  and close that queue; join every worker; last, remove the pids from the registry, once.
\<close>

theorem shutdown_order:
  assumes "\<not> shutdown s" and "worker_pids_set s"
  shows "trace (shutdown_workers (Some False) s) =
           trace s
           @ [SetDoneEvent]
           @ (if has_pin_thread s
              then [CancelJoinResultQueue, PutResultSentinel, JoinPinThread, CloseResultQueue]
              else [])
           @ concat (map (\<lambda>q. [PutIndexSentinel q, CloseIndexQueue q])
                         [0..<length (index_queues s)])
           @ map JoinWorker [0..<length (index_queues s)]
           @ [RemoveWorkerPids]"
  using assms by (simp add: shutdown_workers_def shutdown_body_def Let_def)

theorem shutdown_order_witness:
  "\<not> shutdown demo_state \<and> worker_pids_set demo_state \<and>
   trace (shutdown_workers (Some False) demo_state) =
     [SetDoneEvent, PutIndexSentinel 0, CloseIndexQueue 0, PutIndexSentinel 1,
      CloseIndexQueue 1, JoinWorker 0, JoinWorker 1, RemoveWorkerPids]"
proof -
  have a: "\<not> shutdown demo_state" and b: "worker_pids_set demo_state"
    by (simp_all add: demo_state_def)
  have c: "[0..<length (index_queues demo_state)] = [0, 1]"
    by (simp add: demo_state_def upt_rec)
  show ?thesis using shutdown_order [OF a b] a b unfolding c
    by (simp add: demo_state_def)
qed

subsection \<open>The window invariant\<close>

lemma concat_list_update:
  "i < length qs \<Longrightarrow> concat (qs[i := q]) = concat (take i qs) @ q @ concat (drop (Suc i) qs)"
  by (simp add: upd_conv_take_nth_drop)

lemma concat_split_nth:
  "i < length qs \<Longrightarrow> concat qs = concat (take i qs) @ qs ! i @ concat (drop (Suc i) qs)"
  using concat_list_update [of i qs "qs ! i"] by simp

lemma winvD:
  assumes "winv L s lo t"
  shows "sample_iter s = drop (send_idx s) (batch_sampler L)"
    and "send_idx s = min (length (batch_sampler L)) t"
    and "lo \<le> send_idx s"
    and "length (index_queues s) = num_workers L"
    and "worker_queue_idx s < num_workers L"
    and "batches_outstanding s = int (length (pending s))"
    and "distinct (map fst (pending s))"
    and "fst ` set (pending s) \<union> dom (reorder_dict s) = {lo..<send_idx s}"
    and "fst ` set (pending s) \<inter> dom (reorder_dict s) = {}"
    and "\<forall>x \<in> set (pending s). snd x = batch_sampler L ! fst x"
    and "\<forall>i p. reorder_dict s i = Some p \<longrightarrow>
           (\<exists>r. p = fetch_collate L r (batch_sampler L ! i))"
    and "shutdown s \<longrightarrow> lo = send_idx s \<and> sample_iter s = []"
  using assms unfolding winv_def by blast+

lemma winvI:
  assumes "sample_iter s = drop (send_idx s) (batch_sampler L)"
    and "send_idx s = min (length (batch_sampler L)) t"
    and "lo \<le> send_idx s"
    and "length (index_queues s) = num_workers L"
    and "worker_queue_idx s < num_workers L"
    and "batches_outstanding s = int (length (pending s))"
    and "distinct (map fst (pending s))"
    and "fst ` set (pending s) \<union> dom (reorder_dict s) = {lo..<send_idx s}"
    and "fst ` set (pending s) \<inter> dom (reorder_dict s) = {}"
    and "\<forall>x \<in> set (pending s). snd x = batch_sampler L ! fst x"
    and "\<forall>i p. reorder_dict s i = Some p \<longrightarrow>
           (\<exists>r. p = fetch_collate L r (batch_sampler L ! i))"
    and "shutdown s \<longrightarrow> lo = send_idx s \<and> sample_iter s = []"
  shows "winv L s lo t"
  using assms unfolding winv_def by blast

lemma winv_count:
  assumes "winv L s lo t"
  shows "length (pending s) + card (dom (reorder_dict s)) = send_idx s - lo"
proof -
  let ?A = "fst ` set (pending s)" and ?B = "dom (reorder_dict s)"
  note u = winvD(8) [OF assms] and d = winvD(9) [OF assms] and dist = winvD(7) [OF assms]
  have fin: "finite ?B"
    using u by (metis finite_Un finite_atLeastLessThan)
  have "card ?A = length (pending s)"
    using distinct_card [OF dist] by simp
  moreover have "card (?A \<union> ?B) = card ?A + card ?B"
    using fin d by (simp add: card_Un_disjoint)
  ultimately show ?thesis using u by simp
qed

lemma winv_bounds:
  assumes "winv L s lo t"
  shows "0 \<le> batches_outstanding s"
    and "batches_outstanding s + int (card (dom (reorder_dict s))) = int (send_idx s - lo)"
    and "send_idx s - lo \<le> t - lo"
proof -
  note bo = winvD(6) [OF assms] and se = winvD(2) [OF assms]
  show "0 \<le> batches_outstanding s" using bo by simp
  show "batches_outstanding s + int (card (dom (reorder_dict s))) = int (send_idx s - lo)"
    using winv_count [OF assms] bo by simp
  show "send_idx s - lo \<le> t - lo" using se by simp
qed

lemma winv_retarget:
  assumes "winv L s lo t"
    and "min (length (batch_sampler L)) t' = min (length (batch_sampler L)) t"
  shows "winv L s lo t'"
  using assms(1) unfolding winv_def assms(2) .

lemma put_indices_winv:
  assumes w: "winv L s lo t" and lt: "t < lo + 2 * num_workers L"
    and npos: "0 < num_workers L"
  shows "\<exists>s'. put_indices L s = Inr s' \<and> winv L s' lo (Suc t) \<and>
           rcvd_idx s' = rcvd_idx s \<and> reorder_dict s' = reorder_dict s \<and>
           shutdown s' = shutdown s \<and> trace s' = trace s \<and>
           (sample_iter s' \<noteq> [] \<longrightarrow> pending s' \<noteq> []) \<and>
           length (batch_sampler L) - send_idx s' + length (pending s') =
             length (batch_sampler L) - send_idx s + length (pending s)"
proof -
  let ?bs = "batch_sampler L" and ?n = "num_workers L"
  let ?i = "worker_queue_idx s" and ?qs = "index_queues s"
  have "send_idx s - lo < 2 * ?n"
    using winv_bounds(3) [OF w] lt npos by linarith
  then have "int (send_idx s - lo) < 2 * int ?n"
    by linarith
  then have asrt: "batches_outstanding s < 2 * int ?n"
    using winv_bounds(2) [OF w] by linarith
  note si = winvD(1) [OF w] and se = winvD(2) [OF w] and len = winvD(4) [OF w]
    and wq = winvD(5) [OF w]
  show ?thesis
  proof (cases "sample_iter s")
    case Nil
    then have "length ?bs \<le> send_idx s" using si by simp
    then have "min (length ?bs) (Suc t) = min (length ?bs) t" using se by simp
    then have "winv L s lo (Suc t)" using w by (rule winv_retarget [rotated])
    moreover have "put_indices L s = Inr s"
      using Nil asrt by (simp add: put_indices_def)
    ultimately show ?thesis using Nil by simp
  next
    case (Cons b rest)
    then have sN: "send_idx s < length ?bs" using si by (cases "send_idx s < length ?bs") auto
    then have t_eq: "t = send_idx s" using se by simp
    have b: "b = ?bs ! send_idx s" and rest: "rest = drop (Suc (send_idx s)) ?bs"
      using Cons si Cons_nth_drop_Suc [OF sN] by simp_all
    have nsh: "\<not> shutdown s" using winvD(12) [OF w] Cons by auto
    define s' where "s' = s\<lparr>sample_iter := rest,
        index_queues := ?qs[?i := ?qs ! ?i @ [(send_idx s, b)]],
        worker_queue_idx := (?i + 1) mod ?n,
        batches_outstanding := batches_outstanding s + 1,
        send_idx := send_idx s + 1\<rparr>"
    have put: "put_indices L s = Inr s'"
      using Cons asrt wq len npos by (simp add: put_indices_def s'_def)
    define xs where "xs = concat (take ?i ?qs) @ ?qs ! ?i"
    define ys where "ys = concat (drop (Suc ?i) ?qs)"
    have P: "pending s = xs @ ys"
      using concat_split_nth [of ?i ?qs] wq len by (simp add: pending_def xs_def ys_def)
    have P': "pending s' = xs @ (send_idx s, b) # ys"
      using concat_list_update [of ?i ?qs] wq len
      by (simp add: pending_def s'_def xs_def ys_def)
    note win = winvD(8) [OF w] and dis = winvD(9) [OF w] and dist = winvD(7) [OF w]
      and pay = winvD(10) [OF w] and lo = winvD(3) [OF w] and bo = winvD(6) [OF w]
      and rd = winvD(11) [OF w]
    have fresh: "send_idx s \<notin> fst ` set (pending s)" "send_idx s \<notin> dom (reorder_dict s)"
      using win by auto
    have fields: "sample_iter s' = rest" "send_idx s' = Suc (send_idx s)"
      "length (index_queues s') = ?n" "worker_queue_idx s' = (?i + 1) mod ?n"
      "batches_outstanding s' = batches_outstanding s + 1"
      "reorder_dict s' = reorder_dict s" "shutdown s' = shutdown s"
      "rcvd_idx s' = rcvd_idx s" "trace s' = trace s"
      using len by (simp_all add: s'_def)
    have w1: "fst ` set (pending s') \<union> dom (reorder_dict s') = {lo..<send_idx s'}"
    proof -
      have "fst ` set (pending s') = insert (send_idx s) (fst ` set (pending s))"
        by (simp add: P P' image_Un)
      then have "fst ` set (pending s') \<union> dom (reorder_dict s')
          = insert (send_idx s) {lo..<send_idx s}"
        using win by (simp add: fields)
      also have "\<dots> = {lo..<Suc (send_idx s)}" using lo by auto
      finally show ?thesis by (simp add: fields)
    qed
    have w2: "fst ` set (pending s') \<inter> dom (reorder_dict s') = {}"
      using dis fresh by (auto simp add: P P' fields)
    have w3: "distinct (map fst (pending s'))"
      using dist fresh by (auto simp add: P P')
    have w4: "\<forall>x \<in> set (pending s'). snd x = ?bs ! fst x"
      using pay b by (auto simp add: P P')
    have w5: "worker_queue_idx s' < ?n" using wq by (simp add: fields)
    have w6: "send_idx s' = min (length ?bs) (Suc t)" using sN t_eq by (simp add: fields)
    have w7: "batches_outstanding s' = int (length (pending s'))"
      using bo by (simp add: fields P P')
    have "winv L s' lo (Suc t)"
    proof (rule winvI)
      show "sample_iter s' = drop (send_idx s') ?bs" using rest by (simp add: fields)
      show "lo \<le> send_idx s'" using lo by (simp add: fields)
      show "length (index_queues s') = ?n" by (simp add: fields)
      show "\<forall>i p. reorder_dict s' i = Some p \<longrightarrow> (\<exists>r. p = fetch_collate L r (?bs ! i))"
        using rd by (simp add: fields)
      show "shutdown s' \<longrightarrow> lo = send_idx s' \<and> sample_iter s' = []"
        using nsh by (simp add: fields)
    qed (rule w1 w2 w3 w4 w5 w6 w7)+
    moreover have "pending s' \<noteq> []" by (simp add: P')
    moreover have "length ?bs - send_idx s' + length (pending s') =
             length ?bs - send_idx s + length (pending s)"
      using sN by (simp add: fields P P')
    ultimately show ?thesis using put by (simp add: fields)
  qed
qed

lemma prime_winv:
  assumes "winv L s lo t" and "t + k \<le> lo + 2 * num_workers L" and "0 < num_workers L"
  shows "\<exists>s'. prime L k s = Inr s' \<and> winv L s' lo (t + k) \<and>
           rcvd_idx s' = rcvd_idx s \<and> reorder_dict s' = reorder_dict s \<and>
           shutdown s' = shutdown s \<and> trace s' = trace s"
  using assms
proof (induction k arbitrary: s t)
  case 0
  then show ?case by simp
next
  case (Suc k)
  from Suc.prems have lt: "t < lo + 2 * num_workers L" by simp
  from put_indices_winv [OF Suc.prems(1) lt Suc.prems(3)]
  obtain s1 where s1: "put_indices L s = Inr s1" "winv L s1 lo (Suc t)"
    "rcvd_idx s1 = rcvd_idx s" "reorder_dict s1 = reorder_dict s"
    "shutdown s1 = shutdown s" "trace s1 = trace s"
    by blast
  from Suc.prems have "Suc t + k \<le> lo + 2 * num_workers L" by simp
  from Suc.IH [OF s1(2) this Suc.prems(3)] s1 show ?case by simp
qed

lemma fresh_winv:
  assumes "0 < num_workers L"
  shows "winv L ((fresh L)\<lparr>worker_pids_set := True\<rparr>) 0 0"
  using assms by (intro winvI) (simp_all add: fresh_def pending_def)

lemma busy_mem: "w \<in> set (busy qs) \<longleftrightarrow> w < length qs \<and> qs ! w \<noteq> []"
  by (auto simp add: busy_def)

lemma busy_Nil: "busy qs = [] \<longleftrightarrow> concat qs = []"
proof -
  have "busy qs = [] \<longleftrightarrow> (\<forall>w < length qs. qs ! w = [])"
    by (auto simp add: busy_def filter_empty_conv)
  also have "\<dots> \<longleftrightarrow> (\<forall>q \<in> set qs. q = [])"
    by (simp add: all_set_conv_all_nth)
  finally show ?thesis by simp
qed

lemma worker_done_None: "worker_done L c r s = None \<longleftrightarrow> pending s = []"
proof -
  have "worker_done L c r s = None \<longleftrightarrow> busy (index_queues s) = []"
    by (simp add: worker_done_def Let_def split: list.splits)
  then show ?thesis using busy_Nil [of "index_queues s"] by (simp add: pending_def)
qed

lemma worker_done_Some:
  assumes "worker_done L c r s = Some ((idx, p), s')"
  shows "\<exists>qs' xs ys b. s' = s\<lparr>index_queues := qs'\<rparr> \<and>
           length qs' = length (index_queues s) \<and>
           pending s = xs @ (idx, b) # ys \<and> concat qs' = xs @ ys \<and>
           p = fetch_collate L r b"
proof -
  let ?qs = "index_queues s"
  obtain w0 ws where bz: "busy ?qs = w0 # ws"
    using assms by (auto simp add: worker_done_def split: list.splits)
  define w where "w = (w0 # ws) ! (c mod length (w0 # ws))"
  have "w \<in> set (busy ?qs)"
    unfolding w_def bz by (rule nth_mem) simp
  then have wl: "w < length ?qs" and ne: "?qs ! w \<noteq> []"
    by (simp_all add: busy_mem)
  have "worker_done L c r s =
      Some (ms_work L r (hd (?qs ! w)), s\<lparr>index_queues := ?qs[w := tl (?qs ! w)]\<rparr>)"
    by (simp add: worker_done_def bz Let_def w_def)
  with assms have mw: "ms_work L r (hd (?qs ! w)) = (idx, p)"
    and s'0: "s' = s\<lparr>index_queues := ?qs[w := tl (?qs ! w)]\<rparr>"
    by simp_all
  obtain i b q' where q0: "?qs ! w = (i, b) # q'"
    using ne by (cases "?qs ! w") auto
  have "i = idx" and p: "p = fetch_collate L r b"
    using mw by (simp_all add: q0 ms_work_def)
  then have q: "?qs ! w = (idx, b) # q'" using q0 by simp
  have s': "s' = s\<lparr>index_queues := ?qs[w := q']\<rparr>"
    using s'0 by (simp add: q)
  let ?xs = "concat (take w ?qs)" and ?ys = "q' @ concat (drop (Suc w) ?qs)"
  have "pending s = ?xs @ (idx, b) # ?ys"
    using concat_split_nth [OF wl] q by (simp add: pending_def)
  moreover have "concat (?qs[w := q']) = ?xs @ ?ys"
    using concat_list_update [OF wl] by simp
  moreover have "length (?qs[w := q']) = length ?qs" by simp
  ultimately show ?thesis using s' p by blast
qed

lemma winv_received:
  assumes w: "winv L s lo t"
    and P: "pending s = xs @ (idx, b) # ys" and P': "pending s' = xs @ ys"
    and same: "sample_iter s' = sample_iter s" "send_idx s' = send_idx s"
      "length (index_queues s') = length (index_queues s)"
      "worker_queue_idx s' = worker_queue_idx s" "shutdown s' = shutdown s"
    and bo: "batches_outstanding s' = batches_outstanding s - 1"
  shows "reorder_dict s' = (reorder_dict s)(idx \<mapsto> fetch_collate L r b) \<Longrightarrow> winv L s' lo t"
    and "reorder_dict s' = reorder_dict s \<Longrightarrow> idx = lo \<Longrightarrow> winv L s' (Suc lo) t"
    and "lo \<le> idx" and "idx < send_idx s" and "b = batch_sampler L ! idx"
    and "reorder_dict s idx = None" and "\<not> shutdown s"
proof -
  let ?A = "fst ` set (pending s)" and ?A' = "fst ` set (pending s')"
  let ?D = "dom (reorder_dict s)"
  note win = winvD(8) [OF w] and dis = winvD(9) [OF w] and dist = winvD(7) [OF w]
    and pay = winvD(10) [OF w] and rd = winvD(11) [OF w]
  have A: "?A = insert idx ?A'" by (simp add: P P' image_Un)
  have nin: "idx \<notin> ?A'" using dist by (auto simp add: P P')
  have inw: "idx \<in> {lo..<send_idx s}" using win A by blast
  then show lo: "lo \<le> idx" and hi: "idx < send_idx s" by simp_all
  show b: "b = batch_sampler L ! idx" using pay by (simp add: P)
  show nd: "reorder_dict s idx = None" using dis A by blast
  show nsh: "\<not> shutdown s" using winvD(12) [OF w] lo hi by auto
  have dist': "distinct (map fst (pending s'))" using dist by (simp add: P P')
  have pay': "\<forall>x \<in> set (pending s'). snd x = batch_sampler L ! fst x"
    using pay by (simp add: P P')
  have bo': "batches_outstanding s' = int (length (pending s'))"
    using winvD(6) [OF w] bo by (simp add: P P')
  have base: "sample_iter s' = drop (send_idx s') (batch_sampler L)"
    "send_idx s' = min (length (batch_sampler L)) t"
    "length (index_queues s') = num_workers L" "worker_queue_idx s' < num_workers L"
    using winvD(1,2,4,5) [OF w] same by simp_all
  {
    assume d: "reorder_dict s' = (reorder_dict s)(idx \<mapsto> fetch_collate L r b)"
    show "winv L s' lo t"
    proof (rule winvI)
      show "lo \<le> send_idx s'" using winvD(3) [OF w] same by simp
      show "?A' \<union> dom (reorder_dict s') = {lo..<send_idx s'}"
        using win A by (auto simp add: d same)
      show "?A' \<inter> dom (reorder_dict s') = {}"
        using dis A nin by (auto simp add: d)
      show "\<forall>i p. reorder_dict s' i = Some p \<longrightarrow>
              (\<exists>r. p = fetch_collate L r (batch_sampler L ! i))"
        using rd b by (auto simp add: d)
      show "shutdown s' \<longrightarrow> lo = send_idx s' \<and> sample_iter s' = []"
        using nsh same by simp
    qed (rule base dist' pay' bo')+
  }
  {
    assume d: "reorder_dict s' = reorder_dict s" and i: "idx = lo"
    show "winv L s' (Suc lo) t"
    proof (rule winvI)
      show "Suc lo \<le> send_idx s'" using hi i same by simp
      have "?A' \<union> ?D = {lo..<send_idx s} - {lo}"
        using win A nin nd i by (auto simp add: domIff)
      then show "?A' \<union> dom (reorder_dict s') = {Suc lo..<send_idx s'}"
        by (auto simp add: d same)
      show "?A' \<inter> dom (reorder_dict s') = {}"
        using dis A by (auto simp add: d)
      show "\<forall>i p. reorder_dict s' i = Some p \<longrightarrow>
              (\<exists>r. p = fetch_collate L r (batch_sampler L ! i))"
        using rd by (simp add: d)
      show "shutdown s' \<longrightarrow> Suc lo = send_idx s' \<and> sample_iter s' = []"
        using nsh same by simp
    qed (rule base dist' pay' bo')+
  }
qed

lemma winv_pop:
  assumes w: "winv L s lo t" and p: "reorder_dict s lo = Some p"
  shows "winv L (s\<lparr>reorder_dict := (reorder_dict s)(lo := None)\<rparr>) (Suc lo) t"
    and "\<exists>r. p = fetch_collate L r (batch_sampler L ! lo)"
    and "lo < send_idx s" and "\<not> shutdown s"
proof -
  let ?s' = "s\<lparr>reorder_dict := (reorder_dict s)(lo := None)\<rparr>"
  let ?A = "fst ` set (pending s)" and ?D = "dom (reorder_dict s)"
  note win = winvD(8) [OF w] and dis = winvD(9) [OF w]
  have P: "pending ?s' = pending s" by (simp add: pending_def)
  have inD: "lo \<in> ?D" using p by auto
  then have "lo \<in> {lo..<send_idx s}" using win by blast
  then show hi: "lo < send_idx s" by simp
  then show nsh: "\<not> shutdown s" using winvD(12) [OF w] by auto
  show "\<exists>r. p = fetch_collate L r (batch_sampler L ! lo)"
    using winvD(11) [OF w] p by blast
  show "winv L ?s' (Suc lo) t"
  proof (rule winvI)
    show "sample_iter ?s' = drop (send_idx ?s') (batch_sampler L)"
      using winvD(1) [OF w] by simp
    show "send_idx ?s' = min (length (batch_sampler L)) t" using winvD(2) [OF w] by simp
    show "Suc lo \<le> send_idx ?s'" using hi by simp
    show "length (index_queues ?s') = num_workers L" using winvD(4) [OF w] by simp
    show "worker_queue_idx ?s' < num_workers L" using winvD(5) [OF w] by simp
    show "batches_outstanding ?s' = int (length (pending ?s'))"
      using winvD(6) [OF w] by (simp add: P)
    show "distinct (map fst (pending ?s'))" using winvD(7) [OF w] by (simp add: P)
    have "lo \<notin> ?A" using dis inD by blast
    then have "?A \<union> (?D - {lo}) = {lo..<send_idx s} - {lo}" using win by blast
    then show "fst ` set (pending ?s') \<union> dom (reorder_dict ?s') = {Suc lo..<send_idx ?s'}"
      by (auto simp add: P)
    show "fst ` set (pending ?s') \<inter> dom (reorder_dict ?s') = {}"
      using dis by (auto simp add: P)
    show "\<forall>x \<in> set (pending ?s'). snd x = batch_sampler L ! fst x"
      using winvD(10) [OF w] by (simp add: P)
    show "\<forall>i q. reorder_dict ?s' i = Some q \<longrightarrow>
            (\<exists>r. q = fetch_collate L r (batch_sampler L ! i))"
      using winvD(11) [OF w] by simp
    show "shutdown ?s' \<longrightarrow> Suc lo = send_idx ?s' \<and> sample_iter ?s' = []"
      using nsh by simp
  qed
qed

subsection \<open>One call of \<^verbatim>\<open>next()\<close>\<close>

lemma winv_rcvd_update [simp]: "winv L (s\<lparr>rcvd_idx := x\<rparr>) lo t = winv L s lo t"
  by (simp add: winv_def pending_def)

lemma pending_rcvd_update [simp]: "pending (s\<lparr>rcvd_idx := x\<rparr>) = pending s"
  by (simp add: pending_def)

lemma process_next_batch_inv:
  assumes w: "winv L s (Suc (rcvd_idx s)) (rcvd_idx s + 2 * num_workers L)"
    and npos: "0 < num_workers L"
  shows "\<exists>s'. process_next_batch L s p = (deliver L p, s') \<and> iter_inv L s' \<and>
           rcvd_idx s' = Suc (rcvd_idx s) \<and> trace s' = trace s \<and>
           shutdown s' = shutdown s \<and>
           length (batch_sampler L) - send_idx s' + length (pending s') =
             length (batch_sampler L) - send_idx s + length (pending s)"
proof -
  let ?r = "rcvd_idx s"
  let ?s1 = "s\<lparr>rcvd_idx := ?r + 1\<rparr>"
  have w1: "winv L ?s1 (Suc ?r) (?r + 2 * num_workers L)" using w by simp
  have lt: "?r + 2 * num_workers L < Suc ?r + 2 * num_workers L" by simp
  from put_indices_winv [OF w1 lt npos]
  obtain s2 where put: "put_indices L ?s1 = Inr s2"
    and w2: "winv L s2 (Suc ?r) (Suc (?r + 2 * num_workers L))"
    and f: "rcvd_idx s2 = rcvd_idx ?s1" "shutdown s2 = shutdown ?s1" "trace s2 = trace ?s1"
    and j: "sample_iter s2 \<noteq> [] \<longrightarrow> pending s2 \<noteq> []"
    and td: "length (batch_sampler L) - send_idx s2 + length (pending s2) =
             length (batch_sampler L) - send_idx ?s1 + length (pending ?s1)"
    by blast
  have res: "process_next_batch L s p = (deliver L p, s2)"
    using put by (simp add: process_next_batch_def Let_def deliver_def split: payload.splits)
  have "iter_inv L s2" using w2 j f by (simp add: iter_inv_def)
  then show ?thesis using res f td by simp
qed

lemma on_get_exception_cases:
  "on_get_exception L ev e = Inr NoData \<or>
   (\<exists>m. on_get_exception L ev e = Inl (RuntimeError m)) \<or>
   (on_get_exception L ev e = Inl e \<and> exc_type e \<noteq> ''Empty'')"
  by (auto simp add: on_get_exception_def)

lemma try_get_batch_cases:
  "(\<exists>c r d s'. recv ev = Arrive c r \<and> worker_done L c r s = Some (d, s') \<and>
      try_get_batch L s ev = (Inr (Success d), s')) \<or>
   try_get_batch L s ev = (Inr NoData, s) \<or>
   (\<exists>m. try_get_batch L s ev = (Inl (RuntimeError m), s)) \<or>
   (\<exists>e. recv ev = Raises e \<and> try_get_batch L s ev = (Inl e, s))"
proof (cases "recv ev")
  case (Arrive c r)
  show ?thesis
  proof (cases "worker_done L c r s")
    case None
    then show ?thesis
      using Arrive on_get_exception_cases [of L ev QueueEmpty]
      by (auto simp add: try_get_batch_def QueueEmpty_def)
  next
    case (Some a)
    then show ?thesis using Arrive by (cases a) (simp add: try_get_batch_def)
  qed
next
  case (Raises e)
  then show ?thesis
    using on_get_exception_cases [of L ev e] by (auto simp add: try_get_batch_def)
qed

lemma got_batch_Cons:
  "got_batch L s evs r s' evs' \<Longrightarrow> got_batch L s (ev # evs) r s' evs'"
  unfolding got_batch_def by (metis append_Cons list.set_intros(2))

lemma got_batch_now:
  "(\<exists>e. r = Some (Inl e) \<and> s' = s \<and> ((\<exists>m. e = RuntimeError m) \<or> recv ev = Raises e)) \<or>
   (\<exists>c rr d. r = Some (Inr d) \<and> worker_done L c rr s = Some (d, s'))
   \<Longrightarrow> got_batch L s (ev # evs) r s' evs"
  unfolding got_batch_def by (metis append_Cons append_Nil list.set_intros(1))

lemma get_batch_cases:
  "get_batch L s evs = (r, s', evs') \<Longrightarrow> got_batch L s evs r s' evs'"
proof (induction evs arbitrary: s)
  case Nil
  then show ?case by (simp add: got_batch_def)
next
  case (Cons ev evs)
  note gb = Cons.prems
  consider
    (arr) c rr d s1 where "recv ev = Arrive c rr" "worker_done L c rr s = Some (d, s1)"
      "try_get_batch L s ev = (Inr (Success d), s1)"
    | (nodata) "try_get_batch L s ev = (Inr NoData, s)"
    | (rt) m where "try_get_batch L s ev = (Inl (RuntimeError m), s)"
    | (raised) e where "recv ev = Raises e" "try_get_batch L s ev = (Inl e, s)"
    using try_get_batch_cases [of ev L s] by blast
  then show ?case
  proof cases
    case arr
    show ?thesis
    proof (cases "\<not> py_positive (timeout L) \<and> pin_memory L \<and> \<not> pin_alive ev")
      case True
      then have "r = Some (Inl (RuntimeError ''Pin memory thread exited unexpectedly''))"
        "s' = s" "evs' = evs"
        using gb by simp_all
      then show ?thesis by (auto intro!: got_batch_now)
    next
      case False
      then have "r = Some (Inr d)" "s' = s1" "evs' = evs"
        using gb arr(3) by (auto split: if_splits)
      then show ?thesis using arr(2) by (auto intro!: got_batch_now)
    qed
  next
    case nodata
    show ?thesis
    proof (cases "py_positive (timeout L)")
      case True
      then have "r = Some (Inl (RuntimeError (timeout_msg L)))" "s' = s" "evs' = evs"
        using gb nodata by simp_all
      then show ?thesis by (auto intro!: got_batch_now)
    next
      case False
      show ?thesis
      proof (cases "pin_memory L \<and> \<not> pin_alive ev")
        case True
        then have "r = Some (Inl (RuntimeError ''Pin memory thread exited unexpectedly''))"
          "s' = s" "evs' = evs"
          using gb False by simp_all
        then show ?thesis by (auto intro!: got_batch_now)
      next
        case np: False
        then have "get_batch L s evs = (r, s', evs')"
          using gb False nodata by (auto split: if_splits)
        then show ?thesis by (intro got_batch_Cons Cons.IH)
      qed
    qed
  next
    case (rt m)
    show ?thesis
    proof (cases "\<not> py_positive (timeout L) \<and> pin_memory L \<and> \<not> pin_alive ev")
      case True
      then have "r = Some (Inl (RuntimeError ''Pin memory thread exited unexpectedly''))"
        "s' = s" "evs' = evs"
        using gb by simp_all
      then show ?thesis by (auto intro!: got_batch_now)
    next
      case False
      then have "r = Some (Inl (RuntimeError m))" "s' = s" "evs' = evs"
        using gb rt by (auto split: if_splits)
      then show ?thesis by (auto intro!: got_batch_now)
    qed
  next
    case (raised e)
    show ?thesis
    proof (cases "\<not> py_positive (timeout L) \<and> pin_memory L \<and> \<not> pin_alive ev")
      case True
      then have "r = Some (Inl (RuntimeError ''Pin memory thread exited unexpectedly''))"
        "s' = s" "evs' = evs"
        using gb by simp_all
      then show ?thesis by (auto intro!: got_batch_now)
    next
      case False
      then have "r = Some (Inl e)" "s' = s" "evs' = evs"
        using gb raised(2) by (auto split: if_splits)
      then show ?thesis using raised(1) by (auto intro!: got_batch_now)
    qed
  qed
qed

lemma get_batch_arrival:
  assumes "is_arrival ev" and "pending s \<noteq> []"
  shows "\<exists>c rr d s'. get_batch L s (ev # evs) = (Some (Inr d), s', evs) \<and>
           worker_done L c rr s = Some (d, s')"
proof -
  obtain c rr where r: "recv ev = Arrive c rr" and pa: "pin_alive ev"
    using assms(1) by (auto simp add: is_arrival_def split: recv.splits)
  obtain d s' where wd: "worker_done L c rr s = Some (d, s')"
    using assms(2) worker_done_None [of L c rr s] by (cases "worker_done L c rr s") auto
  then have "try_get_batch L s ev = (Inr (Success d), s')"
    using r by (simp add: try_get_batch_def)
  then have "get_batch L s (ev # evs) = (Some (Inr d), s', evs)"
    using pa by simp
  then show ?thesis using wd by blast
qed

lemma linv_inv: "linv L s \<Longrightarrow> iter_inv L s"
  by (simp add: linv_def iter_inv_def)

lemma linv_facts:
  assumes "linv L s"
  shows "\<not> shutdown s" and "0 < batches_outstanding s" and "rcvd_idx s < send_idx s"
    and "0 < todo L s"
proof -
  from assms have w: "winv L s (rcvd_idx s) (rcvd_idx s + 2 * num_workers L)"
    and ne: "pending s \<noteq> []"
    by (simp_all add: linv_def)
  obtain x where "x \<in> set (pending s)" using ne by (cases "pending s") auto
  then have "fst x \<in> {rcvd_idx s..<send_idx s}" using winvD(8) [OF w] by blast
  then show lt: "rcvd_idx s < send_idx s" by simp
  then show "\<not> shutdown s" using winvD(12) [OF w] by auto
  show "0 < batches_outstanding s" using winvD(6) [OF w] ne by simp
  show "0 < todo L s" using ne by (simp add: todo_def)
qed

lemma stepped_later:
  assumes "stepped L s2 evs0 r s' evs'" and "evs = pre @ evs0"
    and "rcvd_idx s2 = rcvd_idx s"
  shows "stepped L s evs r s' evs'"
proof -
  have a: "\<And>pre'. evs0 = pre' @ evs' \<Longrightarrow> \<exists>p. evs = p @ evs'"
    using assms(2) by simp
  have b: "\<And>e. \<exists>ev \<in> set evs0. recv ev = Raises e \<Longrightarrow> \<exists>ev \<in> set evs. recv ev = Raises e"
    using assms(2) by auto
  show ?thesis
    using assms(1) a b unfolding stepped_def assms(3) by blast
qed

lemma next_loop_stepped:
  assumes npos: "0 < num_workers L"
  shows "linv L s \<Longrightarrow> next_loop L s evs = (r, s', evs') \<Longrightarrow>
         stepped L s evs r s' evs' \<and>
         ((\<forall>ev \<in> set evs. is_arrival ev) \<and> todo L s \<le> length evs \<longrightarrow>
            rcvd_idx s' = Suc (rcvd_idx s) \<and> todo L s' \<le> length evs' \<and>
            (\<forall>ev \<in> set evs'. is_arrival ev))"
proof (induction "length evs" arbitrary: s evs rule: less_induct)
  case less
  note li = less.prems(1) and nl = less.prems(2)
  let ?lo = "rcvd_idx s" and ?t = "rcvd_idx s + 2 * num_workers L"
  from li have w: "winv L s ?lo ?t" and nd: "reorder_dict s ?lo = None"
    and ne: "pending s \<noteq> []"
    by (simp_all add: linv_def)
  note lf = linv_facts [OF li]
  obtain r0 s0 evs0 where gb: "get_batch L s evs = (r0, s0, evs0)"
    by (cases "get_batch L s evs") auto
  have g: "got_batch L s evs r0 s0 evs0" by (rule get_batch_cases [OF gb])
  then obtain pre where pre: "evs = pre @ evs0" unfolding got_batch_def by blast
  have unf: "next_loop L s evs =
      (case (r0, s0, evs0) of
         (None, s', evs') \<Rightarrow> (None, s', evs')
       | (Some (Inl e), s', evs') \<Rightarrow> (Some (Inl e), s', evs')
       | (Some (Inr (idx, batch)), s', evs') \<Rightarrow>
           (let s1 = s'\<lparr>batches_outstanding := batches_outstanding s' - 1\<rparr>
            in if idx \<noteq> rcvd_idx s1
               then next_loop L (s1\<lparr>reorder_dict := (reorder_dict s1)(idx \<mapsto> batch)\<rparr>) evs'
               else (case process_next_batch L s1 batch of
                       (res, s2) \<Rightarrow> (Some res, s2, evs'))))"
    using lf(1,2) gb by (subst next_loop.simps) simp
  have prog: "\<exists>d. r0 = Some (Inr d) \<and> Suc (length evs0) = length evs \<and>
                (\<forall>ev \<in> set evs0. is_arrival ev)"
    if arr: "\<forall>ev \<in> set evs. is_arrival ev" and enough: "todo L s \<le> length evs"
  proof -
    obtain ev evs1 where e: "evs = ev # evs1"
      using enough lf(4) by (cases evs) auto
    then have "is_arrival ev" using arr by simp
    from get_batch_arrival [OF this ne, of L evs1] gb e arr show ?thesis by auto
  qed
  from g consider (hang) "r0 = None" "s0 = s" "evs0 = []"
    | (err) e where "r0 = Some (Inl e)" "s0 = s"
        "(\<exists>m. e = RuntimeError m) \<or> (\<exists>ev \<in> set evs. recv ev = Raises e)"
    | (got) c rr d where "r0 = Some (Inr d)" "worker_done L c rr s = Some (d, s0)"
    unfolding got_batch_def by blast
  then show ?case
  proof cases
    case hang
    then have "r = None" "s' = s" "evs' = []" using nl unf by simp_all
    then have "stepped L s evs r s' evs'"
      using linv_inv [OF li] by (simp add: stepped_def)
    then show ?thesis using prog hang by blast
  next
    case (err e)
    then have "r = Some (Inl e)" "s' = s" "evs' = evs0" using nl unf by simp_all
    then have "stepped L s evs r s' evs'"
      using linv_inv [OF li] pre err(3) unfolding stepped_def by blast
    then show ?thesis using prog err by blast
  next
    case (got c rr d)
    obtain idx p where d: "d = (idx, p)" by (cases d)
    from worker_done_Some [OF got(2) [unfolded d]]
    obtain qs' xs ys b where s0: "s0 = s\<lparr>index_queues := qs'\<rparr>"
      and lq: "length qs' = length (index_queues s)"
      and P: "pending s = xs @ (idx, b) # ys" and cq: "concat qs' = xs @ ys"
      and p: "p = fetch_collate L rr b"
      by blast
    define s1 where "s1 = s0\<lparr>batches_outstanding := batches_outstanding s0 - 1\<rparr>"
    have P1: "pending s1 = xs @ ys" by (simp add: s1_def s0 pending_def cq)
    have f1: "sample_iter s1 = sample_iter s" "send_idx s1 = send_idx s"
      "length (index_queues s1) = length (index_queues s)"
      "worker_queue_idx s1 = worker_queue_idx s" "shutdown s1 = shutdown s"
      "batches_outstanding s1 = batches_outstanding s - 1"
      "reorder_dict s1 = reorder_dict s" "rcvd_idx s1 = rcvd_idx s"
      by (simp_all add: s1_def s0 lq)
    have td1: "Suc (todo L s1) = todo L s" by (simp add: todo_def P P1 f1)
    have step: "next_loop L s evs =
        (if idx \<noteq> rcvd_idx s1
         then next_loop L (s1\<lparr>reorder_dict := (reorder_dict s1)(idx \<mapsto> p)\<rparr>) evs0
         else (case process_next_batch L s1 p of (res, s2) \<Rightarrow> (Some res, s2, evs0)))"
      unfolding unf got(1) d s1_def by (simp add: Let_def)
    have shorter: "length evs0 < length evs"
      using get_batch_shorter [OF gb [unfolded got(1)]] .
    show ?thesis
    proof (cases "idx = ?lo")
      case True
      have w1: "winv L s1 (Suc (rcvd_idx s1)) (rcvd_idx s1 + 2 * num_workers L)"
        using winv_received(2) [OF w P P1 f1(1-6) f1(7) True] by (simp add: f1)
      from process_next_batch_inv [OF w1 npos, of p]
      obtain s2 where pr: "process_next_batch L s1 p = (deliver L p, s2)" and i2: "iter_inv L s2"
        and r2: "rcvd_idx s2 = Suc (rcvd_idx s1)"
        and td2: "length (batch_sampler L) - send_idx s2 + length (pending s2) =
             length (batch_sampler L) - send_idx s1 + length (pending s1)"
        by blast
      have "next_loop L s evs = (Some (deliver L p), s2, evs0)"
        unfolding step using True pr by (simp add: f1(8))
      then have res: "r = Some (deliver L p)" "s' = s2" "evs' = evs0"
        using nl by simp_all
      have b: "b = batch_sampler L ! ?lo"
        using winv_received(5) [OF w P P1 f1(1-6)] True by simp
      have "idx < send_idx s" using winv_received(4) [OF w P P1 f1(1-6)] .
      then have ltN: "?lo < length (batch_sampler L)"
        using winvD(2) [OF w] True by simp
      have "stepped L s evs r s' evs'"
        unfolding stepped_def using i2 pre res r2 p b ltN f1(8) by auto
      moreover have "todo L s' = todo L s1" using td2 by (simp add: todo_def res)
      ultimately show ?thesis using prog td1 r2 res f1(8) by auto
    next
      case False
      define s2 where "s2 = s1\<lparr>reorder_dict := (reorder_dict s1)(idx \<mapsto> p)\<rparr>"
      have "pending s2 = pending s1" by (simp add: s2_def pending_def)
      then have P2: "pending s2 = xs @ ys" by (simp add: P1)
      have f2: "sample_iter s2 = sample_iter s" "send_idx s2 = send_idx s"
        "length (index_queues s2) = length (index_queues s)"
        "worker_queue_idx s2 = worker_queue_idx s" "shutdown s2 = shutdown s"
        "batches_outstanding s2 = batches_outstanding s - 1"
        "reorder_dict s2 = (reorder_dict s)(idx \<mapsto> fetch_collate L rr b)"
        "rcvd_idx s2 = rcvd_idx s"
        by (simp_all add: s2_def f1 p)
      have w2: "winv L s2 ?lo ?t"
        using winv_received(1) [OF w P P2 f2(1-6) f2(7)] .
      have nd2: "reorder_dict s2 ?lo = None" using nd False by (simp add: f2)
      have "?lo \<in> fst ` set (pending s2) \<union> dom (reorder_dict s2)"
        using winvD(8) [OF w2] lf(3) by (simp add: f2)
      then have "?lo \<in> fst ` set (pending s2)" using nd2 by blast
      then have ne2: "pending s2 \<noteq> []" by auto
      have li2: "linv L s2" using w2 nd2 ne2 by (simp add: linv_def f2)
      have "next_loop L s evs = next_loop L s2 evs0"
        unfolding step s2_def using False by (simp add: f1(8))
      then have nl2: "next_loop L s2 evs0 = (r, s', evs')"
        using nl by simp
      have td2: "Suc (todo L s2) = todo L s" using td1 by (simp add: todo_def P1 P2 f1 f2)
      from less.hyps [OF shorter li2 nl2]
      have st: "stepped L s2 evs0 r s' evs'"
        and pg: "(\<forall>ev \<in> set evs0. is_arrival ev) \<and> todo L s2 \<le> length evs0 \<longrightarrow>
            rcvd_idx s' = Suc (rcvd_idx s2) \<and> todo L s' \<le> length evs' \<and>
            (\<forall>ev \<in> set evs'. is_arrival ev)"
        by blast+
      have "stepped L s evs r s' evs'"
        using stepped_later [OF st pre f2(8)] .
      moreover have "rcvd_idx s' = Suc (rcvd_idx s) \<and> todo L s' \<le> length evs' \<and>
            (\<forall>ev \<in> set evs'. is_arrival ev)"
        if a: "\<forall>ev \<in> set evs. is_arrival ev" "todo L s \<le> length evs"
      proof -
        from prog [OF a] have "Suc (length evs0) = length evs"
          "\<forall>ev \<in> set evs0. is_arrival ev" by auto
        then show ?thesis using pg td2 a(2) f2(8) by auto
      qed
      ultimately show ?thesis by blast
    qed
  qed
qed

lemma shutdown_workers_fields:
  "sample_iter (shutdown_workers pes s) = sample_iter s"
  "send_idx (shutdown_workers pes s) = send_idx s"
  "rcvd_idx (shutdown_workers pes s) = rcvd_idx s"
  "index_queues (shutdown_workers pes s) = index_queues s"
  "worker_queue_idx (shutdown_workers pes s) = worker_queue_idx s"
  "batches_outstanding (shutdown_workers pes s) = batches_outstanding s"
  "reorder_dict (shutdown_workers pes s) = reorder_dict s"
  "pending (shutdown_workers pes s) = pending s"
  by (simp_all add: shutdown_workers_def Let_def pending_def)

lemma winv_shutdown_workers:
  assumes w: "winv L s lo t" and e: "lo = send_idx s" "sample_iter s = []"
  shows "winv L (shutdown_workers pes s) lo t"
proof (rule winvI)
  show "shutdown (shutdown_workers pes s) \<longrightarrow>
      lo = send_idx (shutdown_workers pes s) \<and> sample_iter (shutdown_workers pes s) = []"
    using e by (simp add: shutdown_workers_fields)
qed (use winvD [OF w] in \<open>simp_all add: shutdown_workers_fields\<close>)

lemma next_stepped:
  assumes npos: "0 < num_workers L" and i: "iter_inv L s"
    and nx: "next pes L s evs = (r, s', evs')"
  shows "stepped L s evs r s' evs' \<and>
         ((\<forall>ev \<in> set evs. is_arrival ev) \<and> todo L s \<le> length evs \<longrightarrow>
            (if rcvd_idx s < length (batch_sampler L)
             then rcvd_idx s' = Suc (rcvd_idx s)
             else r = Some (Inl StopIteration) \<and> rcvd_idx s' = rcvd_idx s) \<and>
            todo L s' \<le> length evs' \<and> (\<forall>ev \<in> set evs'. is_arrival ev))"
proof -
  let ?lo = "rcvd_idx s" and ?t = "rcvd_idx s + 2 * num_workers L"
  let ?N = "length (batch_sampler L)"
  from i have w: "winv L s ?lo ?t" by (simp add: iter_inv_def)
  have sN: "send_idx s \<le> ?N" using winvD(2) [OF w] by simp
  show ?thesis
  proof (cases "reorder_dict s ?lo")
    case (Some batch)
    let ?s1 = "s\<lparr>reorder_dict := (reorder_dict s)(?lo := None)\<rparr>"
    note pop = winv_pop [OF w Some]
    have w1: "winv L ?s1 (Suc (rcvd_idx ?s1)) (rcvd_idx ?s1 + 2 * num_workers L)"
      using pop(1) by simp
    from process_next_batch_inv [OF w1 npos, of batch]
    obtain s2 where pr: "process_next_batch L ?s1 batch = (deliver L batch, s2)"
      and i2: "iter_inv L s2" and r2: "rcvd_idx s2 = Suc ?lo"
      and td: "?N - send_idx s2 + length (pending s2) =
               ?N - send_idx ?s1 + length (pending ?s1)"
      by auto
    have res: "r = Some (deliver L batch)" "s' = s2" "evs' = evs"
      using nx npos Some pr by (simp_all add: next_def)
    obtain rr where rr: "batch = fetch_collate L rr (batch_sampler L ! ?lo)"
      using pop(2) by blast
    have lt: "?lo < ?N" using pop(3) sN by simp
    have "stepped L s evs r s' evs'"
      unfolding stepped_def using i2 res r2 rr lt by auto
    moreover have "todo L s' = todo L s"
      using td by (simp add: todo_def res pending_def)
    ultimately show ?thesis using lt r2 res by simp
  next
    case None
    show ?thesis
    proof (cases "batches_outstanding s = 0")
      case True
      then have pe: "pending s = []" using winvD(6) [OF w] by simp
      have "dom (reorder_dict s) = {?lo..<send_idx s}"
        using winvD(8) [OF w] pe by simp
      moreover have "?lo \<notin> dom (reorder_dict s)" using None by (simp add: domIff)
      ultimately have "?lo \<notin> {?lo..<send_idx s}" by blast
      then have e: "?lo = send_idx s" using winvD(3) [OF w] by simp
      then have ge: "?N \<le> ?lo" using winvD(2) [OF w] npos by simp
      then have si: "sample_iter s = []" using winvD(1) [OF w] e by simp
      have res: "r = Some (Inl StopIteration)" "s' = shutdown_workers pes s" "evs' = evs"
        using nx npos None True by (simp_all add: next_def)
      have "winv L s' ?lo ?t" unfolding res by (rule winv_shutdown_workers [OF w e si])
      then have "iter_inv L s'"
        using si by (simp add: iter_inv_def res shutdown_workers_fields)
      then have "stepped L s evs r s' evs'"
        unfolding stepped_def using res by (simp add: shutdown_workers_fields)
      moreover have "todo L s' = todo L s"
        by (simp add: todo_def res shutdown_workers_fields)
      ultimately show ?thesis using ge res by (simp add: shutdown_workers_fields)
    next
      case False
      then have ne: "pending s \<noteq> []" using winvD(6) [OF w] by auto
      have li: "linv L s" using w None ne by (simp add: linv_def)
      have nl: "next_loop L s evs = (r, s', evs')"
        using nx npos None False by (simp add: next_def)
      have "?lo < ?N" using linv_facts(3) [OF li] sN by simp
      then show ?thesis using next_loop_stepped [OF npos li nl] by simp
    qed
  qed
qed

subsection \<open>Whole runs\<close>

lemma iter_init_inv:
  assumes npos: "0 < num_workers L"
  shows "\<exists>s0. iter_init L = Inr s0 \<and> iter_inv L s0 \<and> rcvd_idx s0 = 0 \<and>
           todo L s0 = length (batch_sampler L) \<and> trace s0 = [] \<and> \<not> shutdown s0 \<and>
           reorder_dict s0 = Map.empty"
proof -
  let ?f = "(fresh L)\<lparr>worker_pids_set := True\<rparr>"
  let ?N = "length (batch_sampler L)"
  have "0 + 2 * num_workers L \<le> 0 + 2 * num_workers L" by simp
  from prime_winv [OF fresh_winv [OF npos] this npos]
  obtain s0 where p: "prime L (2 * num_workers L) ?f = Inr s0"
    and w: "winv L s0 0 (0 + 2 * num_workers L)"
    and f: "rcvd_idx s0 = rcvd_idx ?f" "reorder_dict s0 = reorder_dict ?f"
      "shutdown s0 = shutdown ?f" "trace s0 = trace ?f"
    by blast
  have f': "rcvd_idx s0 = 0" "reorder_dict s0 = Map.empty" "\<not> shutdown s0" "trace s0 = []"
    using f by (simp_all add: fresh_def)
  have len: "length (pending s0) = send_idx s0"
    using winv_count [OF w] by (simp add: f')
  have se: "send_idx s0 = min ?N (2 * num_workers L)" using winvD(2) [OF w] by simp
  have td: "todo L s0 = ?N" using len se by (simp add: todo_def)
  have j: "sample_iter s0 \<noteq> [] \<longrightarrow> pending s0 \<noteq> []"
  proof
    assume "sample_iter s0 \<noteq> []"
    then have "send_idx s0 < ?N" using winvD(1) [OF w] by simp
    then have "0 < send_idx s0" using se npos by simp
    then show "pending s0 \<noteq> []" using len by auto
  qed
  have "iter_inv L s0" using w j by (simp add: iter_inv_def f')
  moreover have "iter_init L = Inr s0" using p npos by (simp add: iter_init_def)
  ultimately show ?thesis using f' td by simp
qed

lemma stepped_allowed:
  "stepped L s evs (Some out) s' evs' \<Longrightarrow> allowed L evs out"
  unfolding stepped_def allowed_def by blast

lemma allowed_later: "allowed L evs1 out \<Longrightarrow> evs = pre @ evs1 \<Longrightarrow> allowed L evs out"
  unfolding allowed_def by auto

lemma calls_inv:
  assumes npos: "0 < num_workers L"
  shows "iter_inv L s \<Longrightarrow> calls pes L k s evs = (outs, s', evs') \<Longrightarrow>
         iter_inv L s' \<and> (\<exists>pre. evs = pre @ evs') \<and> (\<forall>out \<in> set outs. allowed L evs out)"
proof (induction k arbitrary: s evs outs s' evs')
  case 0
  then show ?case by simp
next
  case (Suc k)
  obtain r s1 evs1 where nx: "next pes L s evs = (r, s1, evs1)"
    by (cases "next pes L s evs") auto
  from next_stepped [OF npos Suc.prems(1) nx]
  have st: "stepped L s evs r s1 evs1" by blast
  then have i1: "iter_inv L s1" and "\<exists>pre. evs = pre @ evs1"
    by (simp_all add: stepped_def)
  then obtain pre1 where pre1: "evs = pre1 @ evs1" by blast
  show ?case
  proof (cases r)
    case None
    then have "outs = []" "s' = s1" "evs' = evs1" using Suc.prems(2) nx by simp_all
    then show ?thesis using i1 pre1 by simp
  next
    case (Some res)
    obtain outs1 s2 evs2 where c: "calls pes L k s1 evs1 = (outs1, s2, evs2)"
      by (cases "calls pes L k s1 evs1") auto
    then have eq: "outs = res # outs1" "s' = s2" "evs' = evs2"
      using Suc.prems(2) nx Some by simp_all
    from Suc.IH [OF i1 c] obtain pre2 where i2: "iter_inv L s2" and pre2: "evs1 = pre2 @ evs2"
      and al: "\<forall>out \<in> set outs1. allowed L evs1 out"
      by blast
    have "allowed L evs res" using stepped_allowed st Some by blast
    moreover have "\<forall>out \<in> set outs1. allowed L evs out"
      using al allowed_later [OF _ pre1] by blast
    moreover have "evs = (pre1 @ pre2) @ evs2" using pre1 pre2 by simp
    ultimately show ?thesis using i2 eq by auto
  qed
qed

lemma calls_snoc:
  "calls pes L k s evs = (outs, s1, evs1) \<Longrightarrow> length outs = k \<Longrightarrow>
   next pes L s1 evs1 = (Some res, s2, evs2) \<Longrightarrow>
   calls pes L (Suc k) s evs = (outs @ [res], s2, evs2)"
proof (induction k arbitrary: s evs outs)
  case 0
  then show ?case by simp
next
  case (Suc k)
  obtain r sa evsa where nx: "next pes L s evs = (r, sa, evsa)"
    by (cases "next pes L s evs") auto
  show ?case
  proof (cases r)
    case None
    then show ?thesis using Suc.prems nx by simp
  next
    case (Some a)
    obtain outs' where c: "calls pes L k sa evsa = (outs', s1, evs1)"
      and eq: "outs = a # outs'"
      using Suc.prems(1) nx Some by (cases "calls pes L k sa evsa") auto
    then have "length outs' = k" using Suc.prems(2) by simp
    from Suc.IH [OF c this Suc.prems(3)]
    have "calls pes L (Suc k) sa evsa = (outs' @ [res], s2, evs2)" .
    then show ?thesis
      using nx Some eq calls.simps(2) [of pes L "Suc k" s evs] by simp
  qed
qed

lemma calls_arrivals:
  assumes npos: "0 < num_workers L"
  shows "iter_inv L s \<Longrightarrow> \<forall>ev \<in> set evs. is_arrival ev \<Longrightarrow> todo L s \<le> length evs \<Longrightarrow>
         rcvd_idx s + k \<le> length (batch_sampler L) \<Longrightarrow>
         \<exists>rs s' evs'.
           calls pes L k s evs =
             (map2 (\<lambda>rr b. deliver L (fetch_collate L rr b)) rs
                   (take k (drop (rcvd_idx s) (batch_sampler L))), s', evs') \<and>
           length rs = k \<and> iter_inv L s' \<and> rcvd_idx s' = rcvd_idx s + k \<and>
           (\<forall>ev \<in> set evs'. is_arrival ev) \<and> todo L s' \<le> length evs'"
proof (induction k arbitrary: s evs)
  case 0
  then show ?case by simp
next
  case (Suc k)
  let ?bs = "batch_sampler L" and ?i = "rcvd_idx s"
  have lt: "?i < length ?bs" using Suc.prems(4) by simp
  obtain r s1 evs1 where nx: "next pes L s evs = (r, s1, evs1)"
    by (cases "next pes L s evs") auto
  from next_stepped [OF npos Suc.prems(1) nx] Suc.prems(2,3) lt
  have st: "stepped L s evs r s1 evs1" and r1: "rcvd_idx s1 = Suc ?i"
    and td1: "todo L s1 \<le> length evs1" and ar1: "\<forall>ev \<in> set evs1. is_arrival ev"
    by simp_all
  from st r1 obtain rr where r: "r = Some (deliver L (fetch_collate L rr (?bs ! ?i)))"
    and i1: "iter_inv L s1"
    unfolding stepped_def by auto
  have "rcvd_idx s1 + k \<le> length ?bs" using r1 Suc.prems(4) by simp
  from Suc.IH [OF i1 ar1 td1 this]
  obtain rs s' evs' where c: "calls pes L k s1 evs1 =
        (map2 (\<lambda>rr b. deliver L (fetch_collate L rr b)) rs (take k (drop (Suc ?i) ?bs)), s', evs')"
    and rest: "length rs = k" "iter_inv L s'" "rcvd_idx s' = Suc ?i + k"
      "\<forall>ev \<in> set evs'. is_arrival ev" "todo L s' \<le> length evs'"
    unfolding r1 by blast
  have tk: "take (Suc k) (drop ?i ?bs) = ?bs ! ?i # take k (drop (Suc ?i) ?bs)"
    using Cons_nth_drop_Suc [OF lt, symmetric] by simp
  have "calls pes L (Suc k) s evs =
      (map2 (\<lambda>rr b. deliver L (fetch_collate L rr b)) (rr # rs) (take (Suc k) (drop ?i ?bs)),
       s', evs')"
    unfolding tk using nx r c by simp
  moreover have "length (rr # rs) = Suc k" using rest(1) by simp
  ultimately show ?case using rest by (intro exI [of _ "rr # rs"] exI [of _ s'] exI [of _ evs']) simp
qed

lemma run_complete:
  assumes npos: "0 < num_workers L"
    and arr: "\<forall>ev \<in> set evs. is_arrival ev"
    and enough: "length (batch_sampler L) \<le> length evs"
  shows "\<exists>s0 rs s' evs'.
           iter_init L = Inr s0 \<and> length rs = length (batch_sampler L) \<and>
           calls pes L (Suc (length (batch_sampler L))) s0 evs =
             (map2 (\<lambda>rr b. deliver L (fetch_collate L rr b)) rs (batch_sampler L)
                @ [Inl StopIteration], s', evs')"
proof -
  let ?N = "length (batch_sampler L)"
  from iter_init_inv [OF npos]
  obtain s0 where s0: "iter_init L = Inr s0" "iter_inv L s0" "rcvd_idx s0 = 0"
    "todo L s0 = ?N"
    by blast
  have "todo L s0 \<le> length evs" "rcvd_idx s0 + ?N \<le> ?N" using s0 enough by simp_all
  from calls_arrivals [OF npos s0(2) arr this, of pes]
  obtain rs s1 evs1 where c: "calls pes L ?N s0 evs =
        (map2 (\<lambda>rr b. deliver L (fetch_collate L rr b)) rs (batch_sampler L), s1, evs1)"
    and rest: "length rs = ?N" "iter_inv L s1" "rcvd_idx s1 = ?N"
      "\<forall>ev \<in> set evs1. is_arrival ev" "todo L s1 \<le> length evs1"
    unfolding s0(3) by auto
  obtain r s2 evs2 where nx: "next pes L s1 evs1 = (r, s2, evs2)"
    by (cases "next pes L s1 evs1") auto
  from next_stepped [OF npos rest(2) nx] rest
  have r: "r = Some (Inl StopIteration)" by simp
  have len: "length (map2 (\<lambda>rr b. deliver L (fetch_collate L rr b)) rs (batch_sampler L)) = ?N"
    using rest(1) by simp
  from calls_snoc [OF c len nx [unfolded r]]
  show ?thesis using s0(1) rest(1) by blast
qed

subsection \<open>Delivery order\<close>

lemma fetch_collate_single_scale:
  assumes "\<not> (1 < length (scale L) \<and> train L)"
  shows "fetch_collate L rr b = fetch_collate L 0 b"
proof -
  have "pick_scale L rr = pick_scale L 0" using assms by (auto simp add: pick_scale_def)
  then show ?thesis unfolding fetch_collate_def by (simp cong: sum.case_cong)
qed

lemma map2_ignore_first:
  "length rs = length bs \<Longrightarrow> map2 (\<lambda>rr b. f b) rs bs = map f bs"
  by (induction rs bs rule: list_induct2) simp_all

text \<open>
  C1. With at least one worker, whatever order the results arrive in (any sequence of
  arrival events, each choosing any worker that has work), the successive calls of
  \<^verbatim>\<open>next()\<close> hand over, in the order of the batch sampler, the result of the worker's
  fetch and collate for each index batch, and the call after the last one raises
  \<^verbatim>\<open>StopIteration\<close>. Without a random scale choice the delivered sequence is the image of
  the batch sampler's sequence.
\<close>

theorem delivery_in_source_order:
  assumes "1 \<le> num_workers L"
    and "list_all is_arrival evs"
    and "length (batch_sampler L) \<le> length evs"
  shows "\<exists>s0 rs s' evs'.
           iter_init L = Inr s0 \<and> length rs = length (batch_sampler L) \<and>
           calls pes L (Suc (length (batch_sampler L))) s0 evs =
             (map2 (\<lambda>rr b. deliver L (fetch_collate L rr b)) rs (batch_sampler L)
                @ [Inl StopIteration], s', evs') \<and>
           (\<not> (1 < length (scale L) \<and> train L) \<longrightarrow>
              fst (calls pes L (Suc (length (batch_sampler L))) s0 evs) =
                map (\<lambda>b. deliver L (fetch_collate L 0 b)) (batch_sampler L)
                  @ [Inl StopIteration])"
proof -
  have npos: "0 < num_workers L" using assms(1) by simp
  have arr: "\<forall>ev \<in> set evs. is_arrival ev" using assms(2) by (simp add: list_all_iff)
  from run_complete [OF npos arr assms(3), of pes]
  obtain s0 rs s' evs' where r: "iter_init L = Inr s0" "length rs = length (batch_sampler L)"
    "calls pes L (Suc (length (batch_sampler L))) s0 evs =
       (map2 (\<lambda>rr b. deliver L (fetch_collate L rr b)) rs (batch_sampler L)
          @ [Inl StopIteration], s', evs')"
    by blast
  have "map2 (\<lambda>rr b. deliver L (fetch_collate L rr b)) rs (batch_sampler L) =
        map (\<lambda>b. deliver L (fetch_collate L 0 b)) (batch_sampler L)"
    if "\<not> (1 < length (scale L) \<and> train L)"
  proof -
    have "(\<lambda>rr b. deliver L (fetch_collate L rr b)) = (\<lambda>rr b. deliver L (fetch_collate L 0 b))"
      using fetch_collate_single_scale [OF that] by metis
    then show ?thesis using map2_ignore_first [OF r(2)] by simp
  qed
  then show ?thesis using r by auto
qed

theorem delivery_in_source_order_witness:
  "1 \<le> num_workers demo_loader \<and>
   list_all is_arrival (map (\<lambda>c. arrival c 0) [1, 1, 0, 0, 0]) \<and>
   length (batch_sampler demo_loader) \<le> length (map (\<lambda>c. arrival c 0) [1, 1, 0, 0, 0 :: nat]) \<and>
   fst (calls (Some False) demo_loader 6 demo_state (map (\<lambda>c. arrival c 0) [1, 1, 0, 0, 0])) =
     [Inr [Tensor 0, ScaleIdx 0], Inr [Tensor 10, ScaleIdx 0], Inr [Tensor 20, ScaleIdx 0],
      Inr [Tensor 30, ScaleIdx 0], Inr [Tensor 40, ScaleIdx 0], Inl StopIteration]"
proof -
  let ?evs = "map (\<lambda>c. arrival c 0) [1, 1, 0, 0, 0 :: nat]"
  have a: "1 \<le> num_workers demo_loader" by (simp add: demo_loader_def)
  have b: "list_all is_arrival ?evs" by (simp add: is_arrival_def arrival_def)
  have c: "length (batch_sampler demo_loader) \<le> length ?evs" by (simp add: demo_loader_def)
  have n: "Suc (length (batch_sampler demo_loader)) = 6" by (simp add: demo_loader_def)
  have sc: "\<not> (1 < length (scale demo_loader) \<and> train demo_loader)"
    by (simp add: demo_loader_def)
  have m: "map (\<lambda>b. deliver demo_loader (fetch_collate demo_loader 0 b)) (batch_sampler demo_loader)
             @ [Inl StopIteration] =
     [Inr [Tensor 0, ScaleIdx 0], Inr [Tensor 10, ScaleIdx 0], Inr [Tensor 20, ScaleIdx 0],
      Inr [Tensor 30, ScaleIdx 0], Inr [Tensor 40, ScaleIdx 0], Inl StopIteration]"
    by (simp add: demo_loader_def fetch_collate_def pick_scale_def deliver_def)
  from delivery_in_source_order [OF a b c, of "Some False"] sc
  have "fst (calls (Some False) demo_loader 6 demo_state ?evs) =
      map (\<lambda>b. deliver demo_loader (fetch_collate demo_loader 0 b)) (batch_sampler demo_loader)
        @ [Inl StopIteration]"
    unfolding n demo_init by auto
  then show ?thesis using a b c unfolding m by blast
qed

subsection \<open>The in-flight counter\<close>

lemma long_init: "iter_init long_loader = Inr long_state"
  by (simp add: iter_init_def long_loader_def long_state_def demo_loader_def demo_state_def
      fresh_def put_indices_def numeral_eq_Suc)

lemma iter_inv_bounds:
  assumes "iter_inv L s"
  shows "0 \<le> batches_outstanding s"
    and "batches_outstanding s + int (card (dom (reorder_dict s))) \<le> 2 * int (num_workers L)"
    and "sample_iter s \<noteq> [] \<Longrightarrow>
           batches_outstanding s + int (card (dom (reorder_dict s))) = 2 * int (num_workers L)"
    and "sample_iter s \<noteq> [] \<Longrightarrow> 0 < batches_outstanding s"
proof -
  let ?n = "num_workers L"
  from assms have w: "winv L s (rcvd_idx s) (rcvd_idx s + 2 * ?n)"
    and j: "sample_iter s \<noteq> [] \<longrightarrow> pending s \<noteq> []"
    by (simp_all add: iter_inv_def)
  note b = winv_bounds [OF w]
  show "0 \<le> batches_outstanding s" by (rule b(1))
  have "send_idx s - rcvd_idx s \<le> 2 * ?n" using b(3) by simp
  then show "batches_outstanding s + int (card (dom (reorder_dict s))) \<le> 2 * int ?n"
    using b(2) by linarith
  {
    assume ne: "sample_iter s \<noteq> []"
    then have "send_idx s < length (batch_sampler L)" using winvD(1) [OF w] by simp
    then have "send_idx s = rcvd_idx s + 2 * ?n" using winvD(2) [OF w] by simp
    then have "send_idx s - rcvd_idx s = 2 * ?n" by simp
    then show "batches_outstanding s + int (card (dom (reorder_dict s))) = 2 * int ?n"
      using b(2) by simp
    show "0 < batches_outstanding s" using j ne winvD(6) [OF w] by simp
  }
qed

lemma fetch_collate_cases:
  "\<exists>k. (\<exists>e. collate_fn L k b = Inl e \<and>
            fetch_collate L rr b = ExceptionWrapper (exc_type e) (traceback_of L k b)) \<or>
       (\<exists>xs i. collate_fn L k b = Inr xs \<and>
            fetch_collate L rr b = Samples (xs @ [ScaleIdx i]))"
  by (intro exI [of _ "pick_scale L rr"])
     (auto simp add: fetch_collate_def Let_def split: sum.splits)





text \<open>
  C10, as the code has it. A result that arrives out of order lowers the counter without a
  refill, so what the dispatches and deliveries keep is this: while the batch sampler is
  not exhausted, the counter and the number of results held in \<open>reorder_dict\<close> add up to
  \<open>2 * num_workers\<close>, and the counter is positive. Hence whenever \<^verbatim>\<open>next()\<close> is entered,
  after any calls and under any events, \<open>batches_outstanding = 0\<close> implies that the batch
  sampler is exhausted.
\<close>

theorem exhausted_when_idle:
  assumes "1 \<le> num_workers L"
    and "iter_init L = Inr s0"
    and "calls pes L k s0 evs = (outs, s, evs')"
  shows "(sample_iter s \<noteq> [] \<longrightarrow>
            batches_outstanding s + int (card (dom (reorder_dict s))) = 2 * int (num_workers L) \<and>
            0 < batches_outstanding s) \<and>
         (batches_outstanding s = 0 \<longrightarrow> sample_iter s = [])"
proof -
  have npos: "0 < num_workers L" using assms(1) by simp
  from iter_init_inv [OF npos] assms(2) have "iter_inv L s0" by auto
  from calls_inv [OF npos this assms(3)] have i: "iter_inv L s" by blast
  show ?thesis using iter_inv_bounds(3,4) [OF i] by fastforce
qed

theorem exhausted_when_idle_witness:
  "1 \<le> num_workers long_loader \<and> iter_init long_loader = Inr long_state \<and>
   sample_iter (fst (snd (calls (Some False) long_loader 1 long_state
                            [arrival 1 0, arrival 0 0]))) = [5, 6] \<and>
   batches_outstanding (fst (snd (calls (Some False) long_loader 1 long_state
                            [arrival 1 0, arrival 0 0])))
     + int (card (dom (reorder_dict (fst (snd (calls (Some False) long_loader 1 long_state
                            [arrival 1 0, arrival 0 0]))))))
     = 2 * int (num_workers long_loader)"
proof -
  let ?c = "calls (Some False) long_loader 1 long_state [arrival 1 0, arrival 0 0]"
  have a: "1 \<le> num_workers long_loader" by (simp add: long_loader_def demo_loader_def)
  have v: "sample_iter (fst (snd ?c)) = [5, 6]" by code_simp
  obtain outs s evs' where c: "?c = (outs, s, evs')" by (cases ?c) auto
  have "sample_iter s \<noteq> []" using v c by simp
  with exhausted_when_idle [OF a long_init c]
  have "batches_outstanding s + int (card (dom (reorder_dict s))) =
          2 * int (num_workers long_loader)"
    by blast
  then show ?thesis using a v c long_init by simp
qed

text \<open>
  C10 as stated fails: after one call of \<^verbatim>\<open>next()\<close> during which batch 1 arrived before
  batch 0, the counter is 3, below the window of 4, and the batch sampler still holds two
  index batches.
\<close>

theorem counter_below_window_source_left:
  "iter_init long_loader = Inr long_state \<and>
   fst (calls (Some False) long_loader 1 long_state [arrival 1 0, arrival 0 0]) =
     [Inr [Tensor 0, ScaleIdx 0]] \<and>
   batches_outstanding (fst (snd (calls (Some False) long_loader 1 long_state
                                    [arrival 1 0, arrival 0 0]))) = 3 \<and>
   2 * int (num_workers long_loader) = 4 \<and>
   sample_iter (fst (snd (calls (Some False) long_loader 1 long_state
                            [arrival 1 0, arrival 0 0]))) = [5, 6]"
proof -
  let ?c = "calls (Some False) long_loader 1 long_state [arrival 1 0, arrival 0 0]"
  have "fst ?c = [Inr [Tensor 0, ScaleIdx 0]]" by code_simp
  moreover have "batches_outstanding (fst (snd ?c)) = 3" by code_simp
  moreover have "2 * int (num_workers long_loader) = 4" by code_simp
  moreover have "sample_iter (fst (snd ?c)) = [5, 6]" by code_simp
  ultimately show ?thesis using long_init by simp
qed

subsection \<open>Failures of the collaborator\<close>

lemma failing_init: "iter_init failing_loader = Inr demo_state"
  by (simp add: iter_init_def failing_loader_def demo_loader_def demo_state_def fresh_def
      put_indices_def numeral_eq_Suc)


lemma run_outcomes:
  assumes "1 \<le> num_workers L"
    and "list_all is_arrival evs"
    and "length (batch_sampler L) \<le> length evs"
  shows "\<exists>s0 outs s' evs'.
           iter_init L = Inr s0 \<and>
           calls pes L (Suc (length (batch_sampler L))) s0 evs = (outs, s', evs') \<and>
           length outs = Suc (length (batch_sampler L)) \<and>
           (\<forall>j < length (batch_sampler L).
              \<exists>rr. outs ! j = deliver L (fetch_collate L rr (batch_sampler L ! j))) \<and>
           outs ! length (batch_sampler L) = Inl StopIteration"
proof -
  let ?bs = "batch_sampler L"
  let ?f = "\<lambda>rr b. deliver L (fetch_collate L rr b)"
  have npos: "0 < num_workers L" using assms(1) by simp
  have arr: "\<forall>ev \<in> set evs. is_arrival ev" using assms(2) by (simp add: list_all_iff)
  from run_complete [OF npos arr assms(3), of pes]
  obtain s0 rs s' evs' where r: "iter_init L = Inr s0" "length rs = length ?bs"
    "calls pes L (Suc (length ?bs)) s0 evs = (map2 ?f rs ?bs @ [Inl StopIteration], s', evs')"
    by blast
  let ?outs = "map2 ?f rs ?bs @ [Inl StopIteration]"
  have len: "length (map2 ?f rs ?bs) = length ?bs" using r(2) by simp
  have "?outs ! j = ?f (rs ! j) (?bs ! j)" if "j < length ?bs" for j
    using that r(2) by (simp add: nth_append)
  moreover have "?outs ! length ?bs = Inl StopIteration"
    using len by (metis nth_append_length)
  moreover have "length ?outs = Suc (length ?bs)" using len by simp
  ultimately show ?thesis using r(1,3) by blast
qed

text \<open>
  C4, as the code has it. When the collaborator fails for the index batch with sequence
  number \<open>k\<close> and for no other, then under every order of arrival the calls of \<^verbatim>\<open>next()\<close>
  before the \<open>k\<close>-th return batches \<open>0\<close> to \<open>k - 1\<close> in order and the call that reaches \<open>k\<close>
  raises the error carried by the failure result. The pipeline is not stopped by it:
  the raising call has moved the cursor on and refilled the window, so a consumer that
  goes on calling \<^verbatim>\<open>next()\<close> receives batches \<open>k + 1\<close> and following, in order, and then
  \<^verbatim>\<open>StopIteration\<close>.
\<close>

theorem fetch_error_in_order:
  assumes "1 \<le> num_workers L"
    and "list_all is_arrival evs"
    and "length (batch_sampler L) \<le> length evs"
    and "k < length (batch_sampler L)"
    and "\<forall>c. isl (collate_fn L c (batch_sampler L ! k))"
    and "\<forall>j c. j = k \<or> length (batch_sampler L) \<le> j \<or> \<not> isl (collate_fn L c (batch_sampler L ! j))"
  shows "\<exists>s0 outs s' evs'.
           iter_init L = Inr s0 \<and>
           calls pes L (Suc (length (batch_sampler L))) s0 evs = (outs, s', evs') \<and>
           length outs = Suc (length (batch_sampler L)) \<and>
           (\<forall>j < length (batch_sampler L). j \<noteq> k \<longrightarrow>
              (\<exists>c xs i. collate_fn L c (batch_sampler L ! j) = Inr xs \<and>
                        outs ! j = Inr (xs @ [ScaleIdx i]))) \<and>
           (\<exists>c e. collate_fn L c (batch_sampler L ! k) = Inl e \<and>
                  outs ! k = deliver L (ExceptionWrapper (exc_type e)
                                          (traceback_of L c (batch_sampler L ! k)))) \<and>
           isl (outs ! k) \<and>
           outs ! length (batch_sampler L) = Inl StopIteration"
proof -
  let ?bs = "batch_sampler L"
  from run_outcomes [OF assms(1-3), of pes]
  obtain s0 outs s' evs' where r: "iter_init L = Inr s0"
    "calls pes L (Suc (length ?bs)) s0 evs = (outs, s', evs')"
    "length outs = Suc (length ?bs)"
    "\<forall>j < length ?bs. \<exists>rr. outs ! j = deliver L (fetch_collate L rr (?bs ! j))"
    "outs ! length ?bs = Inl StopIteration"
    by blast
  have ok: "\<exists>c xs i. collate_fn L c (?bs ! j) = Inr xs \<and> outs ! j = Inr (xs @ [ScaleIdx i])"
    if j: "j < length ?bs" "j \<noteq> k" for j
  proof -
    from r(4) j(1) obtain rr where o: "outs ! j = deliver L (fetch_collate L rr (?bs ! j))"
      by blast
    have nf: "\<And>c. \<not> isl (collate_fn L c (?bs ! j))" using assms(6) j by auto
    from fetch_collate_cases [of L "?bs ! j" rr] nf
    obtain c xs i where "collate_fn L c (?bs ! j) = Inr xs"
      "fetch_collate L rr (?bs ! j) = Samples (xs @ [ScaleIdx i])"
      by (metis sum.disc(1))
    then show ?thesis using o by (auto simp add: deliver_def)
  qed
  have bad: "\<exists>c e. collate_fn L c (?bs ! k) = Inl e \<and>
                  outs ! k = deliver L (ExceptionWrapper (exc_type e) (traceback_of L c (?bs ! k)))"
  proof -
    from r(4) assms(4) obtain rr where o: "outs ! k = deliver L (fetch_collate L rr (?bs ! k))"
      by blast
    from fetch_collate_cases [of L "?bs ! k" rr] assms(5)
    obtain c e where "collate_fn L c (?bs ! k) = Inl e"
      "fetch_collate L rr (?bs ! k) = ExceptionWrapper (exc_type e) (traceback_of L c (?bs ! k))"
      by (metis sum.disc(2))
    then show ?thesis using o by auto
  qed
  then have "isl (outs ! k)" by (auto simp add: deliver_def)
  then show ?thesis using r(1,2,3,5) ok bad by blast
qed

theorem fetch_error_in_order_witness:
  "1 \<le> num_workers failing_loader \<and>
   list_all is_arrival (map (\<lambda>c. arrival c 0) [1, 1, 0, 0, 0]) \<and>
   length (batch_sampler failing_loader) \<le> length (map (\<lambda>c. arrival c 0) [1, 1, 0, 0, 0 :: nat]) \<and>
   1 < length (batch_sampler failing_loader) \<and>
   (\<forall>c. isl (collate_fn failing_loader c (batch_sampler failing_loader ! 1))) \<and>
   (\<exists>outs s' evs'.
      calls (Some False) failing_loader 6 demo_state (map (\<lambda>c. arrival c 0) [1, 1, 0, 0, 0])
        = (outs, s', evs') \<and>
      isl (outs ! 1) \<and> outs ! 5 = Inl StopIteration)"
proof -
  let ?L = failing_loader
  let ?evs = "map (\<lambda>c. arrival c 0) [1, 1, 0, 0, 0 :: nat]"
  have a: "1 \<le> num_workers ?L" by (simp add: failing_loader_def demo_loader_def)
  have b: "list_all is_arrival ?evs" by (simp add: is_arrival_def arrival_def)
  have bs: "batch_sampler ?L = [0, 1, 2, 3, 4]" by (simp add: failing_loader_def demo_loader_def)
  have c: "length (batch_sampler ?L) \<le> length ?evs" by (simp add: bs)
  have d: "1 < length (batch_sampler ?L)" by (simp add: bs)
  have cf: "collate_fn ?L = (\<lambda>k i. if i = 1 then Inl (Exn ''ValueError'' ''bad sample'')
                                  else Inr [Tensor (i * 10)])"
    by (simp add: failing_loader_def)
  have e: "\<forall>c. isl (collate_fn ?L c (batch_sampler ?L ! 1))" by (simp add: bs cf)
  have f: "\<forall>j c. j = 1 \<or> length (batch_sampler ?L) \<le> j \<or>
             \<not> isl (collate_fn ?L c (batch_sampler ?L ! j))"
  proof (intro allI)
    fix j :: nat and c :: "nat option"
    consider "j = 0" | "j = 1" | "j = 2" | "j = 3" | "j = 4" | "5 \<le> j" by linarith
    then show "j = 1 \<or> length (batch_sampler ?L) \<le> j \<or>
             \<not> isl (collate_fn ?L c (batch_sampler ?L ! j))"
      by cases (simp_all add: bs cf)
  qed
  have n: "Suc (length (batch_sampler ?L)) = 6" "length (batch_sampler ?L) = 5" by (simp_all add: bs)
  from fetch_error_in_order [OF a b c d e f, of "Some False"]
  have "\<exists>outs s' evs'. calls (Some False) ?L 6 demo_state ?evs = (outs, s', evs') \<and>
      isl (outs ! 1) \<and> outs ! 5 = Inl StopIteration"
    unfolding n failing_init by auto
  then show ?thesis using a b c d e by blast
qed

text \<open>
  C4 as stated fails in its last part: after the call that raised the error of batch 1,
  the following calls deliver batches 2, 3 and 4.
\<close>

theorem batches_delivered_after_error:
  "iter_init failing_loader = Inr demo_state \<and>
   fst (calls (Some False) failing_loader 6 demo_state (map (\<lambda>c. arrival c 0) [0, 0, 0, 0, 0])) =
     [Inr [Tensor 0, ScaleIdx 0], Inl (Exn ''ValueError'' (''Traceback (most recent call last):'' @ [CHR 0x0A]
                               @ ''ValueError: bad sample'' @ [CHR 0x0A])),
      Inr [Tensor 20, ScaleIdx 0], Inr [Tensor 30, ScaleIdx 0], Inr [Tensor 40, ScaleIdx 0],
      Inl StopIteration]"
proof -
  have "fst (calls (Some False) failing_loader 6 demo_state
               (map (\<lambda>c. arrival c 0) [0, 0, 0, 0, 0])) =
     [Inr [Tensor 0, ScaleIdx 0], Inl (Exn ''ValueError'' (''Traceback (most recent call last):'' @ [CHR 0x0A]
                               @ ''ValueError: bad sample'' @ [CHR 0x0A])),
      Inr [Tensor 20, ScaleIdx 0], Inr [Tensor 30, ScaleIdx 0], Inr [Tensor 40, ScaleIdx 0],
      Inl StopIteration]"
    by code_simp
  then show ?thesis using failing_init by simp
qed







subsection \<open>Blocking receive\<close>

lemma timeout_init: "iter_init timeout_loader = Inr timeout_state"
  by (simp add: iter_init_def timeout_loader_def timeout_state_def demo_loader_def
      demo_state_def fresh_def put_indices_def numeral_eq_Suc)

lemma float_timeout_init: "iter_init float_timeout_loader = Inr timeout_state"
  by (simp add: iter_init_def float_timeout_loader_def timeout_state_def demo_loader_def
      demo_state_def fresh_def put_indices_def numeral_eq_Suc)

lemma digit_chars: "\<forall>d \<in> set [0 ..< 10]. char_of (48 + d :: nat) \<in> set ''0123456789''"
  by code_simp

lemma digit_char: "d < 10 \<Longrightarrow> char_of (48 + d :: nat) \<in> set ''0123456789''"
proof -
  assume "d < 10"
  then have "d \<in> set [0 ..< 10]" by simp
  with digit_chars show ?thesis by (rule bspec)
qed

lemma str_nat_digits: "\<forall>c \<in> set (str_nat n). c \<in> set ''0123456789''"
proof (induction n rule: str_nat.induct)
  case (1 n)
  show ?case
  proof (cases "n < 10")
    case True
    then have "str_nat n = [char_of (48 + n)]" by (subst str_nat.simps) (simp del: str_nat.simps)
    then show ?thesis using digit_char [OF True] by (simp del: str_nat.simps)
  next
    case False
    then have s: "str_nat n = str_nat (n div 10) @ [char_of (48 + n mod 10)]"
      by (subst str_nat.simps) (simp del: str_nat.simps)
    have "n mod 10 < 10" by simp
    then have "char_of (48 + n mod 10) \<in> set ''0123456789''" by (rule digit_char)
    then show ?thesis
      using "1.IH" [OF False] unfolding s by (simp del: str_nat.simps)
  qed
qed

lemma decimal_value_snoc:
  "decimal_value (cs @ [c]) = 10 * decimal_value cs + (of_char c - 48)"
  by (simp add: decimal_value_def)

lemma decimal_value_str_nat: "decimal_value (str_nat n) = n"
proof (induction n rule: str_nat.induct)
  case (1 n)
  show ?case
  proof (cases "n < 10")
    case True
    then have "str_nat n = [char_of (48 + n)]" by (subst str_nat.simps) (simp del: str_nat.simps)
    then show ?thesis using True by (simp del: str_nat.simps add: decimal_value_def)
  next
    case False
    then have s: "str_nat n = str_nat (n div 10) @ [char_of (48 + n mod 10)]"
      by (subst str_nat.simps) (simp del: str_nat.simps)
    have "n mod 10 < 10" by simp
    then have "(48 + n mod 10) mod 256 = 48 + n mod 10" by simp
    then have "of_char (char_of (48 + n mod 10)) - 48 = n mod 10" by simp
    then show ?thesis
      using "1.IH" [OF False] unfolding s decimal_value_snoc by (simp del: str_nat.simps)
  qed
qed



lemma worker_exit_msg_not_timeout:
  "RuntimeError (worker_exit_msg L ws) \<noteq> RuntimeError (''DataLoader timed out after '' @ x)"
  by (simp del: str_nat.simps add: RuntimeError_def worker_exit_msg_def)


lemma timeout_busy: "busy (index_queues timeout_state) = [0, 1]"
  by (simp add: busy_def timeout_state_def demo_state_def upt_rec)

lemma timeout_worker_done:
  "worker_done timeout_loader 1 0 timeout_state =
     Some ((1, Samples [Tensor 10, ScaleIdx 0]),
           timeout_state\<lparr>index_queues := [[(0, 0), (2, 2)], [(3, 3)]]\<rparr>)"
  by (simp add: worker_done_def timeout_busy Let_def ms_work_def fetch_collate_def pick_scale_def)
     (simp add: timeout_state_def demo_state_def timeout_loader_def demo_loader_def)

lemma timeout_dead_workers:
  "dead_workers timeout_loader poll_dead = [1]"
  "dead_workers timeout_loader poll_empty = []"
  "dead_workers timeout_loader poll_oserror = []"
  "dead_workers float_timeout_loader poll_empty = []"
  by (simp_all add: dead_workers_def poll_dead_def poll_empty_def poll_oserror_def
      timeout_loader_def float_timeout_loader_def demo_loader_def upt_rec)

lemma timeout_formats:
  "format_num timeout_loader (timeout timeout_loader) = ''5''"
  "format_num float_timeout_loader (timeout float_timeout_loader) = ''2.5''"
  by code_simp+

text \<open>
  C6, as the code has it. With a positive \<^verbatim>\<open>timeout\<close> (an int or a float), one receive
  is made. A result that arrives within the timeout is returned. When the receive raises
  and no worker is found dead: for \<^verbatim>\<open>queue.Empty\<close>, which is how \<^verbatim>\<open>Queue.get\<close> reports that
  the timeout elapsed, the error raised is
  \<^verbatim>\<open>RuntimeError('DataLoader timed out after {} seconds')\<close> with the configured timeout;
  any other exception is raised again unchanged. Conversely that error is raised only when
  no worker is dead and the receive reported the elapsed timeout (or itself raised this
  very error): never when a result arrived. An int timeout is written in decimal digits,
  a float as Python formats it, the infinite one as \<^verbatim>\<open>inf\<close>.
  When the elapsed time is reported is the business of \<^verbatim>\<open>Queue.get\<close>, outside this code.
\<close>

theorem hard_timeout:
  assumes "py_positive (timeout L)"
  shows "(recv ev = Arrive c r \<longrightarrow> worker_done L c r s = Some (data, s') \<longrightarrow>
            get_batch L s (ev # evs) = (Some (Inr data), s', evs))
       \<and> (recv ev = Raises e \<longrightarrow> exc_type e = ''Empty'' \<longrightarrow> dead_workers L ev = [] \<longrightarrow>
            get_batch L s (ev # evs) =
              (Some (Inl (RuntimeError
                 (''DataLoader timed out after '' @ format_num L (timeout L) @ '' seconds''))),
               s, evs))
       \<and> (recv ev = Raises e \<longrightarrow> exc_type e \<noteq> ''Empty'' \<longrightarrow> dead_workers L ev = [] \<longrightarrow>
            get_batch L s (ev # evs) = (Some (Inl e), s, evs))
       \<and> (get_batch L s (ev # evs) =
            (Some (Inl (RuntimeError
               (''DataLoader timed out after '' @ format_num L (timeout L) @ '' seconds''))),
             s2, evs2) \<longrightarrow>
            dead_workers L ev = [] \<and> s2 = s \<and> evs2 = evs \<and>
            ((\<exists>e'. recv ev = Raises e' \<and>
                (exc_type e' = ''Empty'' \<or>
                 e' = RuntimeError
                   (''DataLoader timed out after '' @ format_num L (timeout L) @ '' seconds'')))
             \<or> (\<exists>c' r'. recv ev = Arrive c' r' \<and> worker_done L c' r' s = None)))
       \<and> (\<forall>i. timeout L = PyInt i \<longrightarrow>
            format_num L (timeout L) = str_nat (nat i) \<and>
            decimal_value (str_nat (nat i)) = nat i \<and>
            (\<forall>ch \<in> set (str_nat (nat i)). ch \<in> set ''0123456789''))
       \<and> (\<forall>m x. timeout L = PyFloat m x \<longrightarrow> format_num L (timeout L) = float_repr L m x)
       \<and> (timeout L = PyInf True \<longrightarrow> format_num L (timeout L) = ''inf'')"
proof (intro conjI impI allI)
  assume "recv ev = Arrive c r" "worker_done L c r s = Some (data, s')"
  then show "get_batch L s (ev # evs) = (Some (Inr data), s', evs)"
    using assms by (simp add: try_get_batch_def)
next
  assume "recv ev = Raises e" "exc_type e = ''Empty''" "dead_workers L ev = []"
  then show "get_batch L s (ev # evs) =
      (Some (Inl (RuntimeError
         (''DataLoader timed out after '' @ format_num L (timeout L) @ '' seconds''))), s, evs)"
    using assms by (simp add: try_get_batch_def on_get_exception_def timeout_msg_def)
next
  assume "recv ev = Raises e" "exc_type e \<noteq> ''Empty''" "dead_workers L ev = []"
  then show "get_batch L s (ev # evs) = (Some (Inl e), s, evs)"
    using assms by (simp add: try_get_batch_def on_get_exception_def)
next
  let ?T = "RuntimeError
    (''DataLoader timed out after '' @ format_num L (timeout L) @ '' seconds'')"
  assume g: "get_batch L s (ev # evs) = (Some (Inl ?T), s2, evs2)"
  have ne: "RuntimeError (worker_exit_msg L (dead_workers L ev)) \<noteq> ?T"
    by (rule worker_exit_msg_not_timeout)
  have q: "exc_type QueueEmpty = ''Empty''" by (simp add: QueueEmpty_def)
  have all: "dead_workers L ev = [] \<and> s2 = s \<and> evs2 = evs \<and>
      ((\<exists>e'. recv ev = Raises e' \<and> (exc_type e' = ''Empty'' \<or> e' = ?T))
       \<or> (\<exists>c' r'. recv ev = Arrive c' r' \<and> worker_done L c' r' s = None))"
  proof (cases "recv ev")
    case (Arrive c' r')
    show ?thesis
    proof (cases "worker_done L c' r' s")
      case None
      then show ?thesis
        using g ne assms Arrive q
        by (simp add: try_get_batch_def on_get_exception_def timeout_msg_def
            split: if_splits)
    next
      case (Some a)
      then show ?thesis
        using g assms Arrive by (cases a) (simp add: try_get_batch_def)
    qed
  next
    case (Raises e')
    then show ?thesis
      using g ne assms
      by (simp add: try_get_batch_def on_get_exception_def timeout_msg_def
          split: if_splits)
  qed
  from all show "dead_workers L ev = []" by blast
  from all show "s2 = s" by blast
  from all show "evs2 = evs" by blast
  from all show "(\<exists>e'. recv ev = Raises e' \<and> (exc_type e' = ''Empty'' \<or> e' = ?T))
       \<or> (\<exists>c' r'. recv ev = Arrive c' r' \<and> worker_done L c' r' s = None)" by blast
next
  fix i assume t: "timeout L = PyInt i"
  then have "0 < i" using assms by simp
  then show "format_num L (timeout L) = str_nat (nat i)"
    using t by (simp del: str_nat.simps add: format_num_def str_int_def)
  show "decimal_value (str_nat (nat i)) = nat i" by (rule decimal_value_str_nat)
  show "\<forall>ch \<in> set (str_nat (nat i)). ch \<in> set ''0123456789''" by (rule str_nat_digits)
next
  fix m x assume "timeout L = PyFloat m x"
  then show "format_num L (timeout L) = float_repr L m x" by (simp add: format_num_def)
next
  assume "timeout L = PyInf True"
  then show "format_num L (timeout L) = ''inf''" by (simp add: format_num_def)
qed

theorem hard_timeout_witness:
  "py_positive (timeout timeout_loader) \<and>
   py_positive (timeout float_timeout_loader) \<and>
   iter_init timeout_loader = Inr timeout_state \<and>
   get_batch timeout_loader timeout_state [arrival 1 0] =
     (Some (Inr (1, Samples [Tensor 10, ScaleIdx 0])),
      timeout_state\<lparr>index_queues := [[(0, 0), (2, 2)], [(3, 3)]]\<rparr>, []) \<and>
   get_batch timeout_loader timeout_state [poll_empty] =
     (Some (Inl (RuntimeError ''DataLoader timed out after 5 seconds'')), timeout_state, []) \<and>
   get_batch timeout_loader timeout_state [poll_oserror] =
     (Some (Inl (Exn ''OSError'' ''boom'')), timeout_state, []) \<and>
   get_batch float_timeout_loader timeout_state [poll_empty] =
     (Some (Inl (RuntimeError ''DataLoader timed out after 2.5 seconds'')), timeout_state, [])"
proof -
  have pos: "py_positive (timeout timeout_loader)"
    and fpos: "py_positive (timeout float_timeout_loader)"
    by (simp_all add: timeout_loader_def float_timeout_loader_def)
  have r1: "recv (arrival 1 0) = Arrive 1 0"
    by (simp add: arrival_def)
  have r2: "recv poll_empty = Raises QueueEmpty" "exc_type QueueEmpty = ''Empty''"
    by (simp_all add: poll_empty_def QueueEmpty_def)
  have r3: "recv poll_oserror = Raises (Exn ''OSError'' ''boom'')"
    "exc_type (Exn ''OSError'' ''boom'') \<noteq> ''Empty''"
    by (simp_all add: poll_oserror_def)
  note h = hard_timeout [OF pos, where s = timeout_state and evs = "[]"]
  note hf = hard_timeout [OF fpos, where s = timeout_state and evs = "[]"]
  have a: "get_batch timeout_loader timeout_state [arrival 1 0] =
      (Some (Inr (1, Samples [Tensor 10, ScaleIdx 0])),
       timeout_state\<lparr>index_queues := [[(0, 0), (2, 2)], [(3, 3)]]\<rparr>, [])"
    using h [where ev = "arrival 1 0", THEN conjunct1, rule_format, OF r1 timeout_worker_done] .
  have b: "get_batch timeout_loader timeout_state [poll_empty] =
      (Some (Inl (RuntimeError
         (''DataLoader timed out after '' @ format_num timeout_loader (timeout timeout_loader)
            @ '' seconds''))), timeout_state, [])"
    using h [where ev = poll_empty, THEN conjunct2, THEN conjunct1, rule_format,
        OF r2 timeout_dead_workers(2)] .
  have c: "get_batch timeout_loader timeout_state [poll_oserror] =
      (Some (Inl (Exn ''OSError'' ''boom'')), timeout_state, [])"
    using h [where ev = poll_oserror, THEN conjunct2, THEN conjunct2, THEN conjunct1,
        rule_format, OF r3 timeout_dead_workers(3)] .
  have d: "get_batch float_timeout_loader timeout_state [poll_empty] =
      (Some (Inl (RuntimeError
         (''DataLoader timed out after ''
            @ format_num float_timeout_loader (timeout float_timeout_loader)
            @ '' seconds''))), timeout_state, [])"
    using hf [where ev = poll_empty, THEN conjunct2, THEN conjunct1, rule_format,
        OF r2 timeout_dead_workers(4)] .
  show ?thesis
    using pos fpos timeout_init a b c d unfolding timeout_formats by simp
qed

text \<open>
  C6 as stated fails when a worker has died: the liveness check of \<^verbatim>\<open>_try_get_batch\<close>
  comes first, and the error names the dead worker instead of the timeout.
\<close>

theorem hard_timeout_dead_worker:
  "py_positive (timeout timeout_loader) \<and>
   iter_init timeout_loader = Inr timeout_state \<and>
   recv poll_dead = Raises QueueEmpty \<and>
   get_batch timeout_loader timeout_state [poll_dead] =
     (Some (Inl (RuntimeError ''DataLoader worker (pid(s) 101) exited unexpectedly'')),
      timeout_state, []) \<and>
   get_batch timeout_loader timeout_state [poll_dead] \<noteq>
     (Some (Inl (RuntimeError ''DataLoader timed out after 5 seconds'')), timeout_state, [])"
proof -
  have pos: "py_positive (timeout timeout_loader)"
    by (simp add: timeout_loader_def)
  have r: "recv poll_dead = Raises QueueEmpty"
    by (simp add: poll_dead_def)
  have m: "worker_exit_msg timeout_loader [1] =
      ''DataLoader worker (pid(s) 101) exited unexpectedly''"
    "worker_exit_msg timeout_loader [Suc 0] =
      ''DataLoader worker (pid(s) 101) exited unexpectedly''"
    by code_simp+
  have g: "get_batch timeout_loader timeout_state [poll_dead] =
     (Some (Inl (RuntimeError ''DataLoader worker (pid(s) 101) exited unexpectedly'')),
      timeout_state, [])"
    using pos
    by (simp del: str_nat.simps
        add: try_get_batch_def r on_get_exception_def timeout_dead_workers m)
  show ?thesis unfolding g using r pos timeout_init by (simp add: RuntimeError_def)
qed





subsection \<open>The synchronous path\<close>

text \<open>
  C9. An iterator without workers should deliver the same sequence as the pipelined one;
  it does not. The worker appends the scale index to every batch
  (\<^verbatim>\<open>samples.append(idx_scale)\<close> in \<^verbatim>\<open>_ms_loop\<close>); the synchronous branch of \<^verbatim>\<open>__next__\<close>
  returns the collated batch as it is. On the same loader and batch sampler the two
  sequences differ in every batch; both end with \<^verbatim>\<open>StopIteration\<close>.
\<close>

theorem sync_path_omits_scale_index:
  "iter_init sync_loader = Inr sync_state \<and>
   fst (calls (Some False) sync_loader 6 sync_state []) =
     [Inr [Tensor 0], Inr [Tensor 10], Inr [Tensor 20], Inr [Tensor 30], Inr [Tensor 40],
      Inl StopIteration] \<and>
   iter_init demo_loader = Inr demo_state \<and>
   fst (calls (Some False) demo_loader 6 demo_state (map (\<lambda>c. arrival c 0) [0, 0, 0, 0, 0])) =
     [Inr [Tensor 0, ScaleIdx 0], Inr [Tensor 10, ScaleIdx 0], Inr [Tensor 20, ScaleIdx 0],
      Inr [Tensor 30, ScaleIdx 0], Inr [Tensor 40, ScaleIdx 0], Inl StopIteration]"
proof -
  have "iter_init sync_loader = Inr sync_state"
    by (simp add: iter_init_def sync_loader_def sync_state_def)
  moreover have "fst (calls (Some False) sync_loader 6 sync_state []) =
     [Inr [Tensor 0], Inr [Tensor 10], Inr [Tensor 20], Inr [Tensor 30], Inr [Tensor 40],
      Inl StopIteration]"
    by code_simp
  moreover have "fst (calls (Some False) demo_loader 6 demo_state
                        (map (\<lambda>c. arrival c 0) [0, 0, 0, 0, 0])) =
     [Inr [Tensor 0, ScaleIdx 0], Inr [Tensor 10, ScaleIdx 0], Inr [Tensor 20, ScaleIdx 0],
      Inr [Tensor 30, ScaleIdx 0], Inr [Tensor 40, ScaleIdx 0], Inl StopIteration]"
    by code_simp
  ultimately show ?thesis using demo_init by simp
qed

end
